theory Spec2Isabelle
  imports Main "HOL-Library.Multiset" "HOL-Library.List_Lexorder" "HOL-Library.Char_ord"
    "HOL-Library.AList"
begin

section \<open>Machine integers and formatting helpers\<close>

text \<open>
  Go's \<open>int\<close> and \<open>int64\<close> are 64-bit two's complement integers.  They are modelled
  as \<open>int\<close>; where the source adds or multiplies, the wrap-around is written out with
  \<open>wrap64\<close>.  Go's integer division truncates towards zero (\<open>quot\<close>).
\<close>

definition wrap64 :: "int \<Rightarrow> int" where
  "wrap64 x = (x + 2 ^ 63) mod 2 ^ 64 - 2 ^ 63"

definition quot :: "int \<Rightarrow> int \<Rightarrow> int" where
  "quot a b = sgn a * sgn b * (\<bar>a\<bar> div \<bar>b\<bar>)"

text \<open>The verb \<open>%d\<close> of \<open>fmt.Sprintf\<close>: decimal digits, with a minus sign for negatives.\<close>

function natDigits :: "nat \<Rightarrow> string" where
  "natDigits n =
     (if n < 10 then [char_of (48 + n)]
      else natDigits (n div 10) @ [char_of (48 + n mod 10)])"
  by pat_completeness auto
termination
  by (relation "measure id") auto

declare natDigits.simps [simp del]

definition sprintf_d :: "int \<Rightarrow> string" where
  "sprintf_d i = (if i < 0 then CHR ''-'' # natDigits (nat (- i)) else natDigits (nat i))"

section \<open>formatSize (handlers)\<close>

datatype panic = IndexOutOfRange | SliceBoundsOutOfRange

text \<open>
  The loop \<open>for n := size / unit; n >= unit; n /= unit { div *= unit; exp++ }\<close>.
  The state is \<open>(n, div, exp)\<close>; the result is the final \<open>(div, exp)\<close>.
\<close>

function formatSize_loop :: "int \<Rightarrow> int \<Rightarrow> int \<Rightarrow> int \<times> int" where
  "formatSize_loop n dv ex =
     (if n \<ge> 1024 then formatSize_loop (quot n 1024) (wrap64 (dv * 1024)) (wrap64 (ex + 1))
      else (dv, ex))"
  by pat_completeness auto
termination
proof (relation "measure (\<lambda>(n, dv, ex). nat n)")
  show "wf (measure (\<lambda>(n, dv, ex). nat n))" by simp
next
  fix n dv ex :: int
  assume "1024 \<le> n"
  then have "quot n 1024 = n div 1024" by (simp add: quot_def)
  with \<open>1024 \<le> n\<close> show "((quot n 1024, wrap64 (dv * 1024), wrap64 (ex + 1)), (n, dv, ex))
      \<in> measure (\<lambda>(n, dv, ex). nat n)"
    by simp
qed

declare formatSize_loop.simps [simp del]

text \<open>
  \<open>formatSize\<close>.  The float formatting \<open>Sprintf("%.1f", float64(size)/float64(div))\<close>
  is the parameter \<open>fmt1f\<close>, applied to \<open>size\<close> and \<open>div\<close>.  Indexing the string
  \<open>"KMGTPE"\<close> out of range panics in Go; the model returns \<open>Inl IndexOutOfRange\<close> there.
\<close>

definition formatSize :: "(int \<Rightarrow> int \<Rightarrow> string) \<Rightarrow> int \<Rightarrow> panic + string" where
  "formatSize fmt1f sz =
     (if sz < 1024 then Inr (sprintf_d sz @ '' B'')
      else (case formatSize_loop (quot sz 1024) 1024 0 of
              (dv, ex) \<Rightarrow>
                if 0 \<le> ex \<and> ex < int (length ''KMGTPE'')
                then Inr (fmt1f sz dv @ '' '' @ [''KMGTPE'' ! nat ex] @ ''B'')
                else Inl IndexOutOfRange))"

section \<open>The file index (scanner)\<close>

text \<open>
  \<open>ImageFile\<close> is a row of the index.  Timestamps are instants, modelled as \<open>int\<close>
  (\<open>time.Time.Equal\<close> is equality of instants).  The bookkeeping columns \<open>CreatedAt\<close> and
  \<open>UpdatedAt\<close> are left out: no decision of the code reads them.  The table is the list of
  its rows; \<open>ID\<close> is the primary key and \<open>Path\<close> carries a unique index.
\<close>

record ImageFile =
  ID :: nat
  Path :: string
  Size :: int
  Hash :: string
  ModTime :: int

type_synonym db = "ImageFile list"

record DuplicateGroup =
  gHash :: string
  gSize :: int
  Files :: "ImageFile list"

record HashSizeCount =
  hsHash :: string
  hsSize :: int
  hsCount :: int

text \<open>\<open>db.Where("hash = ? AND size = ?", h, s).Find(&files)\<close>, rows in table order.\<close>

definition whereHashSize :: "string \<Rightarrow> int \<Rightarrow> db \<Rightarrow> ImageFile list" where
  "whereHashSize h s d = filter (\<lambda>r. Hash r = h \<and> Size r = s) d"

text \<open>\<open>db.Where("path IN ?", paths).Find(&existingFiles)\<close>.\<close>

definition wherePathIn :: "string list \<Rightarrow> db \<Rightarrow> ImageFile list" where
  "wherePathIn paths d = filter (\<lambda>r. Path r \<in> set paths) d"

text \<open>\<open>db.Delete(&f)\<close> deletes by primary key.\<close>

definition dbDelete :: "ImageFile \<Rightarrow> db \<Rightarrow> db" where
  "dbDelete f d = filter (\<lambda>r. ID r \<noteq> ID f) d"

text \<open>\<open>db.Where("path = ?", p).Delete(&ImageFile{})\<close>.\<close>

definition deleteWherePath :: "string \<Rightarrow> db \<Rightarrow> db" where
  "deleteWherePath p d = filter (\<lambda>r. Path r \<noteq> p) d"

text \<open>
  \<open>db.Create(&toCreate)\<close>: one insert statement for the whole slice.  The rows get fresh
  primary keys; a violation of the unique index on \<open>Path\<close> fails the statement, nothing is
  inserted, and the caller ignores the error.
\<close>

definition nextID :: "db \<Rightarrow> nat" where
  "nextID d = Suc (foldr max (map ID d) 0)"

primrec assignIDs :: "nat \<Rightarrow> ImageFile list \<Rightarrow> ImageFile list" where
  "assignIDs n [] = []"
| "assignIDs n (r # rs) = r\<lparr>ID := n\<rparr> # assignIDs (Suc n) rs"

definition dbCreate :: "ImageFile list \<Rightarrow> db \<Rightarrow> db" where
  "dbCreate recs d =
     (if distinct (map Path recs) \<and> (\<forall>r \<in> set recs. Path r \<notin> set (map Path d))
      then d @ assignIDs (nextID d) recs
      else d)"

text \<open>
  \<open>db.Save(&f)\<close>: with a zero primary key it inserts; otherwise it updates every column of
  the row with that key, and inserts when there is no such row.  A violation of the unique
  index on \<open>Path\<close> fails the statement and the caller ignores the error.
\<close>

definition dbSave :: "ImageFile \<Rightarrow> db \<Rightarrow> db" where
  "dbSave f d =
     (if ID f = 0 then dbCreate [f] d
      else if ID f \<in> set (map ID d)
      then (if \<exists>r \<in> set d. ID r \<noteq> ID f \<and> Path r = Path f then d
            else map (\<lambda>r. if ID r = ID f then f else r) d)
      else (if Path f \<in> set (map Path d) then d else d @ [f]))"

text \<open>
  The grouped query
  \<open>Select("hash, size, count(*) as count").Group("hash, size").Having("count(*) > 1")\<close>.
  \<open>groupedRows\<close> lists its rows in the order in which the keys first occur in the table.
  SQL fixes no order for the rows of a grouped query, so the backend may return any
  enumeration of them (\<open>scanned\<close>); with \<open>Order("size DESC")\<close> the enumeration is
  descending in \<open>size\<close>, and the order among rows of equal size is left to the backend
  (\<open>scannedSizeDesc\<close>).
\<close>

definition groupCount :: "string \<Rightarrow> int \<Rightarrow> db \<Rightarrow> int" where
  "groupCount h s d = int (length (whereHashSize h s d))"

definition groupedRows :: "db \<Rightarrow> HashSizeCount list" where
  "groupedRows d =
     map (\<lambda>(h, s). \<lparr>hsHash = h, hsSize = s, hsCount = groupCount h s d\<rparr>)
       (filter (\<lambda>(h, s). groupCount h s d > 1) (remdups (map (\<lambda>r. (Hash r, Size r)) d)))"

definition scanned :: "db \<Rightarrow> HashSizeCount list \<Rightarrow> bool" where
  "scanned d ks \<longleftrightarrow> distinct ks \<and> set ks = set (groupedRows d)"

definition scannedSizeDesc :: "db \<Rightarrow> HashSizeCount list \<Rightarrow> bool" where
  "scannedSizeDesc d ks \<longleftrightarrow> scanned d ks \<and> sorted_wrt (\<lambda>a b. hsSize a \<ge> hsSize b) ks"

section \<open>The environment\<close>

text \<open>
  The operating system, the clock and the Go standard library are outside the repository.
  They are the fields of \<open>sys\<close>, over a type \<open>'w\<close> of states of the world (file system and
  clock).  An operation that can fail returns \<open>Inl\<close> of the error text (\<open>err.Error()\<close>).
  \<open>os_Stat w p\<close> says that \<open>os.Stat(p)\<close> returns no error.  \<open>io_ReadAll w p\<close> is the
  outcome of \<open>os.Open\<close> followed by \<open>io.Copy\<close>: the bytes read, or the error.
\<close>

datatype walkItem =
    WalkErr string string
  | WalkInfo string bool int int

record 'w sys =
  os_Stat :: "'w \<Rightarrow> string \<Rightarrow> bool"
  os_MkdirAll :: "'w \<Rightarrow> string \<Rightarrow> string + 'w"
  os_Rename :: "'w \<Rightarrow> string \<Rightarrow> string \<Rightarrow> string + 'w"
  os_Remove :: "'w \<Rightarrow> string \<Rightarrow> string + 'w"
  time_NowFormat :: "'w \<Rightarrow> string \<Rightarrow> string"
  io_ReadAll :: "'w \<Rightarrow> string \<Rightarrow> string + string"
  md5_Hex :: "string \<Rightarrow> string"
  fp_Abs :: "'w \<Rightarrow> string \<Rightarrow> string + string"
  fp_Walk :: "'w \<Rightarrow> string \<Rightarrow> walkItem list"
  fp_Base :: "string \<Rightarrow> string"
  fp_Dir :: "string \<Rightarrow> string"
  fp_Ext :: "string \<Rightarrow> string"
  fp_Join :: "string \<Rightarrow> string \<Rightarrow> string"
  fp_ToSlash :: "string \<Rightarrow> string"
  str_ToLower :: "string \<Rightarrow> string"

text \<open>\<open>strings.TrimSuffix\<close> and \<open>strings.Join\<close>.\<close>

definition TrimSuffix :: "string \<Rightarrow> string \<Rightarrow> string" where
  "TrimSuffix s suffix =
     (if length suffix \<le> length s \<and> drop (length s - length suffix) s = suffix
      then take (length s - length suffix) s
      else s)"

fun strings_Join :: "string list \<Rightarrow> string \<Rightarrow> string" where
  "strings_Join [] sep = []"
| "strings_Join [x] sep = x"
| "strings_Join (x # y # ys) sep = x @ sep @ strings_Join (y # ys) sep"

section \<open>Scanning (scanner)\<close>

definition supportedExtensions :: "string list" where
  "supportedExtensions =
     [''.jpg'', ''.jpeg'', ''.png'', ''.gif'', ''.bmp'', ''.tiff'', ''.tif'', ''.webp'']"

definition isImageFile :: "'w sys \<Rightarrow> string \<Rightarrow> bool" where
  "isImageFile sy p \<longleftrightarrow> str_ToLower sy (fp_Ext sy p) \<in> set supportedExtensions"

definition calculateFileHash :: "'w sys \<Rightarrow> 'w \<Rightarrow> string \<Rightarrow> string + string" where
  "calculateFileHash sy w p =
     (case io_ReadAll sy w p of Inl err \<Rightarrow> Inl err | Inr bytes \<Rightarrow> Inr (md5_Hex sy bytes))"

record fileInfo =
  fi_path :: string
  fi_normalizedPath :: string
  fi_size :: int
  fi_modTime :: int

text \<open>
  The loop of \<open>processBatch\<close> over the batch.  Its state is \<open>toCreate\<close>, \<open>toUpdate\<close> and
  the paths on which \<open>calculateFileHash\<close> was called, in call order (the call counter of
  the digest function).  Progress messages are left out.
\<close>

primrec processBatch_loop ::
  "'w sys \<Rightarrow> 'w \<Rightarrow> (string \<rightharpoonup> ImageFile) \<Rightarrow> fileInfo list \<Rightarrow>
   ImageFile list \<times> ImageFile list \<times> string list \<Rightarrow> ImageFile list \<times> ImageFile list \<times> string list"
where
  "processBatch_loop sy w existingMap [] acc = acc"
| "processBatch_loop sy w existingMap (fi # rest) acc =
     (case acc of (toCreate, toUpdate, calls) \<Rightarrow>
       (let existing = existingMap (fi_normalizedPath fi) in
        if (case existing of
              Some e \<Rightarrow> ModTime e = fi_modTime fi \<and> Size e = fi_size fi
            | None \<Rightarrow> False)
        then processBatch_loop sy w existingMap rest (toCreate, toUpdate, calls)
        else (case calculateFileHash sy w (fi_path fi) of
                Inl err \<Rightarrow>
                  processBatch_loop sy w existingMap rest (toCreate, toUpdate, calls @ [fi_path fi])
              | Inr h \<Rightarrow>
                  (let imageFile = \<lparr>ID = 0, Path = fi_normalizedPath fi, Size = fi_size fi,
                                    Hash = h, ModTime = fi_modTime fi\<rparr>
                   in case existing of
                        Some e \<Rightarrow>
                          processBatch_loop sy w existingMap rest
                            (toCreate, toUpdate @ [imageFile\<lparr>ID := ID e\<rparr>], calls @ [fi_path fi])
                      | None \<Rightarrow>
                          processBatch_loop sy w existingMap rest
                            (toCreate @ [imageFile], toUpdate, calls @ [fi_path fi])))))"

definition processBatch :: "'w sys \<Rightarrow> 'w \<Rightarrow> fileInfo list \<Rightarrow> db \<times> string list \<Rightarrow> db \<times> string list" where
  "processBatch sy w batch st =
     (case st of (d, calls) \<Rightarrow>
       if length batch = 0 then (d, calls)
       else
        (let paths = map fi_normalizedPath batch;
             existingFiles = wherePathIn paths d;
             existingMap = foldl (\<lambda>m ef. m(Path ef \<mapsto> ef)) Map.empty existingFiles
         in case processBatch_loop sy w existingMap batch ([], [], calls) of
              (toCreate, toUpdate, calls') \<Rightarrow>
                (let d1 = (if length toCreate > 0 then dbCreate toCreate d else d);
                     d2 = foldl (\<lambda>d' f. dbSave f d') d1 toUpdate
                 in (d2, calls'))))"

text \<open>
  The callback of \<open>filepath.Walk\<close>, with the state \<open>(db, batch, calls)\<close>, and
  \<open>scanDirectory\<close>.  The callback always returns \<open>nil\<close>, so the walk visits every item
  and \<open>scanDirectory\<close> fails only when \<open>filepath.Abs\<close> does.
\<close>

definition batchSize :: nat where
  "batchSize = 50"

definition walkFn :: "'w sys \<Rightarrow> 'w \<Rightarrow> db \<times> fileInfo list \<times> string list \<Rightarrow> walkItem \<Rightarrow>
    db \<times> fileInfo list \<times> string list" where
  "walkFn sy w st item =
     (case st of (d, batch, calls) \<Rightarrow>
       (case item of
          WalkErr p err \<Rightarrow> (d, batch, calls)
        | WalkInfo p isDir sz mt \<Rightarrow>
            if isDir then (d, batch, calls)
            else if \<not> isImageFile sy p then (d, batch, calls)
            else
              (let batch' = batch @ [\<lparr>fi_path = p, fi_normalizedPath = fp_ToSlash sy p,
                                      fi_size = sz, fi_modTime = mt\<rparr>]
               in if length batch' \<ge> batchSize
                  then (case processBatch sy w batch' (d, calls) of (d', calls') \<Rightarrow> (d', [], calls'))
                  else (d, batch', calls))))"

definition scanDirectory :: "'w sys \<Rightarrow> 'w \<Rightarrow> db \<Rightarrow> string \<Rightarrow> string + db \<times> string list" where
  "scanDirectory sy w d dirPath =
     (case fp_Abs sy w dirPath of
        Inl err \<Rightarrow> Inl (''failed to get absolute path: '' @ err)
      | Inr absPath \<Rightarrow>
          (case foldl (walkFn sy w) (d, [], []) (fp_Walk sy w absPath) of
             (d', batch, calls) \<Rightarrow>
               if length batch > 0 then Inr (processBatch sy w batch (d', calls))
               else Inr (d', calls)))"

section \<open>Duplicate listing (scanner)\<close>

datatype failure = QueryError string | RuntimePanic panic

text \<open>
  The inner loop of \<open>findDuplicates\<close>: files whose \<open>os.Stat\<close> succeeds are kept, the
  others are deleted from the index.
\<close>

primrec existingFiles_loop ::
  "'w sys \<Rightarrow> 'w \<Rightarrow> ImageFile list \<Rightarrow> ImageFile list \<times> db \<Rightarrow> ImageFile list \<times> db" where
  "existingFiles_loop sy w [] st = st"
| "existingFiles_loop sy w (f # fs) st =
     (case st of (existingFiles, d) \<Rightarrow>
        if os_Stat sy w (Path f)
        then existingFiles_loop sy w fs (existingFiles @ [f], d)
        else existingFiles_loop sy w fs (existingFiles, dbDelete f d))"

primrec findDuplicates_loop ::
  "'w sys \<Rightarrow> 'w \<Rightarrow> HashSizeCount list \<Rightarrow> DuplicateGroup list \<times> db \<Rightarrow> DuplicateGroup list \<times> db" where
  "findDuplicates_loop sy w [] st = st"
| "findDuplicates_loop sy w (hs # rest) st =
     (case st of (groups, d) \<Rightarrow>
        (let files = whereHashSize (hsHash hs) (hsSize hs) d in
         case existingFiles_loop sy w files ([], d) of
           (existingFiles, d') \<Rightarrow>
             if length existingFiles > 1
             then findDuplicates_loop sy w rest
                    (groups @ [\<lparr>gHash = hsHash hs, gSize = hsSize hs, Files = existingFiles\<rparr>], d')
             else findDuplicates_loop sy w rest (groups, d')))"

text \<open>
  \<open>findDuplicates\<close>.  The argument \<open>q\<close> is the outcome of the grouped query: the error of
  the backend or the rows it returned.  The result carries the index after the call.
\<close>

definition findDuplicates ::
  "'w sys \<Rightarrow> 'w \<Rightarrow> string + HashSizeCount list \<Rightarrow> db \<Rightarrow> string + DuplicateGroup list \<times> db" where
  "findDuplicates sy w q d =
     (case q of
        Inl err \<Rightarrow> Inl err
      | Inr duplicateHashSizes \<Rightarrow> Inr (findDuplicates_loop sy w duplicateHashSizes ([], d)))"

primrec findDuplicatesPaginated_loop ::
  "HashSizeCount list \<Rightarrow> db \<Rightarrow> DuplicateGroup list \<Rightarrow> DuplicateGroup list" where
  "findDuplicatesPaginated_loop [] d groups = groups"
| "findDuplicatesPaginated_loop (hs # rest) d groups =
     (let files = whereHashSize (hsHash hs) (hsSize hs) d in
      if length files > 1
      then findDuplicatesPaginated_loop rest d
             (groups @ [\<lparr>gHash = hsHash hs, gSize = hsSize hs, Files = files\<rparr>])
      else findDuplicatesPaginated_loop rest d groups)"

text \<open>
  \<open>findDuplicatesPaginated\<close> returns the groups of the page, \<open>totalGroups\<close> and
  \<open>totalFiles\<close>.  It does not write to the index.  The slice expression
  \<open>allDuplicateHashSizes[offset:end]\<close> panics when \<open>offset\<close> is negative or exceeds \<open>end\<close>.
  \<open>totalFiles\<close> is at most the number of rows of the table, so its additions do not wrap.
\<close>

definition findDuplicatesPaginated ::
  "string + HashSizeCount list \<Rightarrow> db \<Rightarrow> int \<Rightarrow> int \<Rightarrow> failure + DuplicateGroup list \<times> int \<times> int" where
  "findDuplicatesPaginated q d offset limit =
     (case q of
        Inl err \<Rightarrow> Inl (QueryError err)
      | Inr allDuplicateHashSizes \<Rightarrow>
          (let totalGroups = int (length allDuplicateHashSizes);
               totalFiles = foldl (\<lambda>t hs. t + hsCount hs) 0 allDuplicateHashSizes
           in if offset \<ge> int (length allDuplicateHashSizes) then Inr ([], totalGroups, totalFiles)
              else
                (let end0 = wrap64 (offset + limit);
                     end1 = (if end0 > int (length allDuplicateHashSizes)
                             then int (length allDuplicateHashSizes) else end0)
                 in if offset < 0 \<or> end1 < offset then Inl (RuntimePanic SliceBoundsOutOfRange)
                    else
                      (let paginatedHashSizes =
                             take (nat (end1 - offset)) (drop (nat offset) allDuplicateHashSizes)
                       in Inr (findDuplicatesPaginated_loop paginatedHashSizes d [],
                               totalGroups, totalFiles)))))"

section \<open>Folder patterns (handlers)\<close>

text \<open>
  The two sorting functions are the same pair of nested loops, swapping the elements at
  \<open>i\<close> and \<open>j\<close> when the test \<open>sw (s[i]) (s[j])\<close> holds.
\<close>

function exchange_inner :: "('a \<Rightarrow> 'a \<Rightarrow> bool) \<Rightarrow> nat \<Rightarrow> nat \<Rightarrow> 'a list \<Rightarrow> 'a list" where
  "exchange_inner sw i j s =
     (if j < length s
      then exchange_inner sw i (j + 1)
             (if sw (s ! i) (s ! j) then s[i := s ! j, j := s ! i] else s)
      else s)"
  by pat_completeness auto
termination
  by (relation "measure (\<lambda>(sw, i, j, s). length s - j)") auto

declare exchange_inner.simps [simp del]

function exchange_outer :: "('a \<Rightarrow> 'a \<Rightarrow> bool) \<Rightarrow> nat \<Rightarrow> 'a list \<Rightarrow> 'a list" where
  "exchange_outer sw i s =
     (if i + 1 < length s then exchange_outer sw (i + 1) (exchange_inner sw i (i + 1) s) else s)"
  by pat_completeness auto
termination
proof (relation "measure (\<lambda>(sw, i, s). length s - i)")
  show "wf (measure (\<lambda>(sw, i, s). length s - i))" by simp
next
  fix sw :: "'a \<Rightarrow> 'a \<Rightarrow> bool" and i :: nat and s :: "'a list"
  assume i: "i + 1 < length s"
  have len: "length (exchange_inner sw' i' j' s') = length s'"
    for sw' :: "'a \<Rightarrow> 'a \<Rightarrow> bool" and i' j' s'
  proof (induction sw' i' j' s' rule: exchange_inner.induct)
    case (1 sw' i' j' s')
    show ?case
    proof (cases "j' < length s'")
      case True
      then show ?thesis using 1 by (subst exchange_inner.simps) simp
    next
      case False
      then show ?thesis by (subst exchange_inner.simps) simp
    qed
  qed
  show "((sw, i + 1, exchange_inner sw i (i + 1) s), (sw, i, s))
      \<in> measure (\<lambda>(sw, i, s). length s - i)"
    using i by (simp add: len)
qed

declare exchange_outer.simps [simp del]

definition sortStrings :: "string list \<Rightarrow> string list" where
  "sortStrings s = exchange_outer (\<lambda>a b. a > b) 0 s"

record FolderPattern =
  fpID :: string
  Folders :: "string list"
  DuplicateCount :: int
  TotalFiles :: int

definition sortPatternsByCount :: "FolderPattern list \<Rightarrow> FolderPattern list" where
  "sortPatternsByCount patterns =
     exchange_outer (\<lambda>a b. DuplicateCount a < DuplicateCount b) 0 patterns"

definition createPatternID :: "string list \<Rightarrow> string" where
  "createPatternID folders = strings_Join folders ''|''"

text \<open>
  A Go map used as a set, \<open>folderSet\<close>, is the list of its keys without repetition.  A
  \<open>range\<close> over a map yields the keys in an order that Go leaves unspecified and varies
  from one loop to the next; the order is chosen by a function \<open>rng\<close> that permutes the
  keys (\<open>rangeOrder\<close>).
\<close>

definition mapInsert :: "'a \<Rightarrow> 'a list \<Rightarrow> 'a list" where
  "mapInsert k ks = (if k \<in> set ks then ks else ks @ [k])"

definition rangeOrder :: "('a list \<Rightarrow> 'a list) \<Rightarrow> bool" where
  "rangeOrder rng \<longleftrightarrow> (\<forall>xs. mset (rng xs) = mset xs)"

definition folderSet :: "'w sys \<Rightarrow> ImageFile list \<Rightarrow> string list" where
  "folderSet sy files = foldl (\<lambda>m file. mapInsert (fp_Dir sy (Path file)) m) [] files"

text \<open>
  The loop of \<open>handleGetFolderPatterns\<close> over the groups.  \<open>patternMap\<close> is an association
  list from pattern ID to pattern.
\<close>

primrec patterns_loop ::
  "'w sys \<Rightarrow> (string list \<Rightarrow> string list) \<Rightarrow> DuplicateGroup list \<Rightarrow>
   (string \<times> FolderPattern) list \<Rightarrow> (string \<times> FolderPattern) list" where
  "patterns_loop sy rng [] patternMap = patternMap"
| "patterns_loop sy rng (g # rest) patternMap =
     (let folders = sortStrings (rng (folderSet sy (Files g)));
          patternID = createPatternID folders
      in case map_of patternMap patternID of
           Some existing \<Rightarrow>
             patterns_loop sy rng rest
               (AList.update patternID
                  (existing\<lparr>DuplicateCount := DuplicateCount existing + 1,
                            TotalFiles := TotalFiles existing + int (length (Files g))\<rparr>)
                  patternMap)
         | None \<Rightarrow>
             patterns_loop sy rng rest
               (AList.update patternID
                  \<lparr>fpID = patternID, Folders = folders, DuplicateCount = 1,
                   TotalFiles = int (length (Files g))\<rparr>
                  patternMap))"

datatype http_error = BadRequest string | InternalServerError string

text \<open>
  \<open>handleGetFolderPatterns\<close>.  \<open>rngK\<close> orders the range over each \<open>folderSet\<close>, \<open>rngP\<close>
  the range over \<open>patternMap\<close>; \<open>q\<close> is the outcome of the grouped query.
\<close>

definition handleGetFolderPatterns ::
  "'w sys \<Rightarrow> (string list \<Rightarrow> string list) \<Rightarrow> (FolderPattern list \<Rightarrow> FolderPattern list) \<Rightarrow>
   string + HashSizeCount list \<Rightarrow> db \<Rightarrow> http_error + FolderPattern list" where
  "handleGetFolderPatterns sy rngK rngP q d =
     (case findDuplicatesPaginated q d 0 100000 of
        Inl (QueryError err) \<Rightarrow> Inl (InternalServerError (''Failed to find duplicates: '' @ err))
      | Inl (RuntimePanic p) \<Rightarrow> Inl (InternalServerError [])
      | Inr (groups, totalGroups, totalFiles) \<Rightarrow>
          Inr (sortPatternsByCount (rngP (map snd (patterns_loop sy rngK groups [])))))"

section \<open>Disposal (handlers)\<close>


record DeleteFilesResponse =
  Success :: int
  Failed :: int
  FailedFiles :: "string list"

text \<open>
  The state of the disposal loops: the world, the index, and the three accumulators
  \<open>successCount\<close>, \<open>failedCount\<close> and \<open>failedFiles\<close>.
\<close>

record 'w disposal =
  world :: 'w
  indexDB :: db
  successCount :: int
  failedCount :: int
  failedFiles :: "string list"

text \<open>
  The destination of a move into the trash directory: the base name, or, when a file of
  that name is already there, the base name with a timestamp before the extension.
\<close>

definition trashDestination :: "'w sys \<Rightarrow> 'w \<Rightarrow> string \<Rightarrow> string \<Rightarrow> string \<Rightarrow> string" where
  "trashDestination sy w trashDir layout baseName =
     (let destPath = fp_Join sy trashDir baseName in
      if os_Stat sy w destPath
      then (let ext = fp_Ext sy baseName;
                nameWithoutExt = TrimSuffix baseName ext
            in fp_Join sy trashDir (nameWithoutExt @ ''_'' @ time_NowFormat sy w layout @ ext))
      else destPath)"

definition disposalFailed :: "'w sys \<Rightarrow> string \<Rightarrow> string \<Rightarrow> 'w disposal \<Rightarrow> 'w disposal" where
  "disposalFailed sy filePath err st =
     st\<lparr>failedCount := failedCount st + 1,
        failedFiles := failedFiles st @ [fp_Base sy filePath @ '': '' @ err]\<rparr>"

definition disposalDone :: "'w sys \<Rightarrow> string \<Rightarrow> 'w \<Rightarrow> 'w disposal \<Rightarrow> 'w disposal" where
  "disposalDone sy filePath w' st =
     st\<lparr>world := w',
        indexDB := deleteWherePath (fp_ToSlash sy filePath) (indexDB st),
        successCount := successCount st + 1\<rparr>"



definition respond :: "'w disposal \<Rightarrow> (http_error + DeleteFilesResponse) \<times> 'w \<times> db" where
  "respond st =
     (Inr \<lparr>Success = successCount st, Failed = failedCount st, FailedFiles = failedFiles st\<rparr>,
      world st, indexDB st)"


record BatchDeleteRule =
  PatternID :: string
  KeepFolder :: string

record BatchDeleteRequest =
  Rules :: "BatchDeleteRule list"
  BatchTrashDir :: string

text \<open>The body of the loop of \<open>handleBatchDelete\<close> over the files of a group.\<close>

definition batchDelete_file :: "'w sys \<Rightarrow> string \<Rightarrow> string \<Rightarrow> 'w disposal \<Rightarrow> ImageFile \<Rightarrow> 'w disposal" where
  "batchDelete_file sy trashDir keepFolder st file =
     (let fileDir = fp_Dir sy (Path file) in
      if fileDir = keepFolder then st
      else if trashDir \<noteq> []
      then (let baseName = fp_Base sy (Path file);
                destPath = trashDestination sy (world st) trashDir ''20060102_150405_000'' baseName
            in case os_Rename sy (world st) (Path file) destPath of
                 Inl err \<Rightarrow> disposalFailed sy (Path file) err st
               | Inr w' \<Rightarrow> disposalDone sy (Path file) w' st)
      else (case os_Remove sy (world st) (Path file) of
              Inl err \<Rightarrow> disposalFailed sy (Path file) err st
            | Inr w' \<Rightarrow> disposalDone sy (Path file) w' st))"

text \<open>The body of the loop over the groups.\<close>

definition batchDelete_group ::
  "'w sys \<Rightarrow> (string list \<Rightarrow> string list) \<Rightarrow> (string \<rightharpoonup> string) \<Rightarrow> string \<Rightarrow>
   'w disposal \<Rightarrow> DuplicateGroup \<Rightarrow> 'w disposal" where
  "batchDelete_group sy rng ruleMap trashDir st g =
     (let folders = sortStrings (rng (folderSet sy (Files g)));
          patternID = createPatternID folders
      in case ruleMap patternID of
           None \<Rightarrow> st
         | Some keepFolder \<Rightarrow> foldl (batchDelete_file sy trashDir keepFolder) st (Files g))"

text \<open>
  \<open>handleBatchDelete\<close>.  \<open>bound\<close> is the outcome of \<open>ShouldBindJSON\<close>, \<open>q\<close> the outcome
  of the grouped query, \<open>rng\<close> the order of the range over each \<open>folderSet\<close>.
\<close>

definition handleBatchDelete ::
  "'w sys \<Rightarrow> (string list \<Rightarrow> string list) \<Rightarrow> string + BatchDeleteRequest \<Rightarrow>
   string + HashSizeCount list \<Rightarrow> 'w \<Rightarrow> db \<Rightarrow> (http_error + DeleteFilesResponse) \<times> 'w \<times> db" where
  "handleBatchDelete sy rng bound q w d =
     (case bound of
        Inl err \<Rightarrow> (Inl (BadRequest err), w, d)
      | Inr req \<Rightarrow>
          if length (Rules req) = 0 then (Inl (BadRequest ''No rules specified''), w, d)
          else
            (let ruleMap = foldl (\<lambda>m rule. m(PatternID rule \<mapsto> KeepFolder rule)) Map.empty (Rules req)
             in case findDuplicatesPaginated q d 0 100000 of
                  Inl (QueryError err) \<Rightarrow>
                    (Inl (InternalServerError (''Failed to find duplicates: '' @ err)), w, d)
                | Inl (RuntimePanic p) \<Rightarrow> (Inl (InternalServerError []), w, d)
                | Inr (groups, totalGroups, totalFiles) \<Rightarrow>
                    (case (if BatchTrashDir req \<noteq> [] then os_MkdirAll sy w (BatchTrashDir req)
                           else Inr w) of
                       Inl err \<Rightarrow>
                         (Inl (InternalServerError (''Failed to create trash directory: '' @ err)),
                          w, d)
                     | Inr w1 \<Rightarrow>
                         respond (foldl (batchDelete_group sy rng ruleMap (BatchTrashDir req))
                           \<lparr>world = w1, indexDB = d, successCount = 0, failedCount = 0,
                            failedFiles = []\<rparr>
                           groups))))"

section \<open>A small environment for evaluating the model\<close>

text \<open>
  A world is the list of the paths of its files.  Paths use \<open>/\<close>; the content of a file is
  its base name, so files of the same name in different folders have equal digests.
\<close>

definition afterLast :: "char \<Rightarrow> string \<Rightarrow> string" where
  "afterLast c p = rev (takeWhile (\<lambda>x. x \<noteq> c) (rev p))"

definition beforeLast :: "char \<Rightarrow> string \<Rightarrow> string" where
  "beforeLast c p = rev (drop 1 (dropWhile (\<lambda>x. x \<noteq> c) (rev p)))"

definition listSys :: "string list sys" where
  "listSys =
     \<lparr>os_Stat = (\<lambda>w p. p \<in> set w),
      os_MkdirAll = (\<lambda>w p. Inr w),
      os_Rename = (\<lambda>w src dst. if src \<in> set w then Inr (dst # removeAll src w)
                                else Inl ''no such file or directory''),
      os_Remove = (\<lambda>w p. if p \<in> set w then Inr (removeAll p w)
                          else Inl ''no such file or directory''),
      time_NowFormat = (\<lambda>w layout. layout),
      io_ReadAll = (\<lambda>w p. if p \<in> set w then Inr (afterLast CHR ''/'' p)
                           else Inl ''no such file or directory''),
      md5_Hex = (\<lambda>bytes. bytes),
      fp_Abs = (\<lambda>w p. Inr p),
      fp_Walk = (\<lambda>w root. map (\<lambda>p. WalkInfo p False (int (length p)) 1)
                             (filter (\<lambda>p. take (length root) p = root) w)),
      fp_Base = afterLast CHR ''/'',
      fp_Dir = beforeLast CHR ''/'',
      fp_Ext = (\<lambda>p. if CHR ''.'' \<in> set p then CHR ''.'' # afterLast CHR ''.'' p else []),
      fp_Join = (\<lambda>a b. a @ ''/'' @ b),
      fp_ToSlash = (\<lambda>p. p),
      str_ToLower = (\<lambda>s. s)\<rparr>"

section \<open>Auxiliary notions for the proofs\<close>

text \<open>
  The invariant of the outer sorting loop: the first \<open>i\<close> elements are sorted by \<open>key\<close>
  and none of them exceeds a later element.
\<close>

definition sorted_upto :: "('a \<Rightarrow> 'k::linorder) \<Rightarrow> nat \<Rightarrow> 'a list \<Rightarrow> bool" where
  "sorted_upto key i s \<longleftrightarrow>
     sorted (map key (take i s)) \<and> (\<forall>x \<in> set (take i s). \<forall>y \<in> set (drop i s). key x \<le> key y)"


text \<open>A group of three files in two folders, and a state in which all three exist.\<close>

definition sampleGroup :: DuplicateGroup where
  "sampleGroup =
     \<lparr>gHash = ''x.jpg'', gSize = 8,
      Files = [\<lparr>ID = 1, Path = ''/b/x.jpg'', Size = 8, Hash = ''x.jpg'', ModTime = 1\<rparr>,
               \<lparr>ID = 2, Path = ''/a/x.jpg'', Size = 8, Hash = ''x.jpg'', ModTime = 1\<rparr>,
               \<lparr>ID = 3, Path = ''/b/y.jpg'', Size = 8, Hash = ''x.jpg'', ModTime = 1\<rparr>]\<rparr>"

definition sampleState :: "string list disposal" where
  "sampleState =
     \<lparr>world = [''/b/x.jpg'', ''/a/x.jpg'', ''/b/y.jpg''], indexDB = Files sampleGroup,
      successCount = 0, failedCount = 0, failedFiles = []\<rparr>"

text \<open>
  An index of four files: two copies of \<open>x.jpg\<close> in \<open>/a\<close> and \<open>/b\<close>, two copies of
  \<open>y.jpg\<close> in \<open>/c\<close> and \<open>/d\<close>.
\<close>

definition sampleDB :: db where
  "sampleDB =
     [\<lparr>ID = 1, Path = ''/a/x.jpg'', Size = 8, Hash = ''x.jpg'', ModTime = 1\<rparr>,
      \<lparr>ID = 2, Path = ''/b/x.jpg'', Size = 8, Hash = ''x.jpg'', ModTime = 1\<rparr>,
      \<lparr>ID = 3, Path = ''/c/y.jpg'', Size = 8, Hash = ''y.jpg'', ModTime = 1\<rparr>,
      \<lparr>ID = 4, Path = ''/d/y.jpg'', Size = 8, Hash = ''y.jpg'', ModTime = 1\<rparr>]"

definition sampleKeys :: "HashSizeCount list" where
  "sampleKeys =
     [\<lparr>hsHash = ''x.jpg'', hsSize = 8, hsCount = 2\<rparr>,
      \<lparr>hsHash = ''y.jpg'', hsSize = 8, hsCount = 2\<rparr>]"

text \<open>
  For the loop of \<open>findDuplicates\<close>: the members of a key whose \<open>os.Stat\<close> succeeds, the
  group appended for a key (if any), and the index after the deletions for a key.
\<close>

definition survivors :: "'w sys \<Rightarrow> 'w \<Rightarrow> string \<Rightarrow> int \<Rightarrow> db \<Rightarrow> ImageFile list" where
  "survivors sy w h s d = filter (\<lambda>f. os_Stat sy w (Path f)) (whereHashSize h s d)"

definition newGroup :: "'w sys \<Rightarrow> 'w \<Rightarrow> HashSizeCount \<Rightarrow> db \<Rightarrow> DuplicateGroup list" where
  "newGroup sy w hs d =
     (if length (survivors sy w (hsHash hs) (hsSize hs) d) > 1
      then [\<lparr>gHash = hsHash hs, gSize = hsSize hs,
             Files = survivors sy w (hsHash hs) (hsSize hs) d\<rparr>]
      else [])"

definition purge :: "'w sys \<Rightarrow> 'w \<Rightarrow> HashSizeCount \<Rightarrow> db \<Rightarrow> db" where
  "purge sy w hs d =
     filter (\<lambda>r. ID r \<notin> ID ` {f \<in> set (whereHashSize (hsHash hs) (hsSize hs) d).
                                  \<not> os_Stat sy w (Path f)}) d"

text \<open>
  The key of a row of the grouped query.  A record is stale for a list of such rows when
  its key is listed and its file is gone.
\<close>

definition keyOf :: "HashSizeCount \<Rightarrow> string \<times> int" where
  "keyOf hs = (hsHash hs, hsSize hs)"

definition stale :: "'w sys \<Rightarrow> 'w \<Rightarrow> HashSizeCount list \<Rightarrow> ImageFile \<Rightarrow> bool" where
  "stale sy w ks r \<longleftrightarrow> (Hash r, Size r) \<in> set (map keyOf ks) \<and> \<not> os_Stat sy w (Path r)"

text \<open>A world in which the file \<open>/d/y.jpg\<close> of the sample index is gone.\<close>

definition sampleWorld :: "string list" where
  "sampleWorld = [''/a/x.jpg'', ''/b/x.jpg'', ''/c/y.jpg'']"

text \<open>
  An index with \<open>n\<close> duplicate keys of the same size, two files each (the digest of key
  \<open>i\<close> is \<open>i + 1\<close> letters \<open>a\<close>), the rows of the grouped query over it in the order of
  the table, and the groups of a returned page.
\<close>

definition manyHash :: "nat \<Rightarrow> string" where
  "manyHash i = replicate (Suc i) CHR ''a''"

definition manyRows :: "nat \<Rightarrow> ImageFile list" where
  "manyRows i =
     [\<lparr>ID = 2 * i + 1, Path = ''/a/'' @ manyHash i, Size = 1, Hash = manyHash i, ModTime = 1\<rparr>,
      \<lparr>ID = 2 * i + 2, Path = ''/b/'' @ manyHash i, Size = 1, Hash = manyHash i, ModTime = 1\<rparr>]"

definition manyDB :: "nat \<Rightarrow> db" where
  "manyDB n = concat (map manyRows [0..<n])"

definition manyKeys :: "nat \<Rightarrow> HashSizeCount list" where
  "manyKeys n = map (\<lambda>i. \<lparr>hsHash = manyHash i, hsSize = 1, hsCount = 2\<rparr>) [0..<n]"

definition pageGroups :: "failure + DuplicateGroup list \<times> int \<times> int \<Rightarrow> DuplicateGroup list" where
  "pageGroups r = (case r of Inl e \<Rightarrow> [] | Inr (groups, totalGroups, totalFiles) \<Rightarrow> groups)"

text \<open>The group that \<open>findDuplicatesPaginated\<close> builds for a row of the grouped query.\<close>

definition groupOf :: "db \<Rightarrow> HashSizeCount \<Rightarrow> DuplicateGroup" where
  "groupOf d hs =
     \<lparr>gHash = hsHash hs, gSize = hsSize hs, Files = whereHashSize (hsHash hs) (hsSize hs) d\<rparr>"

text \<open>
  The disposal handlers, described independently of their accumulators.  The physical
  operation on one path is a rename into the trash directory or a removal.  \<open>outcomes\<close>
  runs it on the paths in order, each on the world left by the previous ones, and records
  for each path \<open>None\<close> for success or the error text; \<open>worldAfter\<close> is the world at the
  end.  \<open>succeeded\<close> lists the paths that were disposed of, \<open>failures\<close> the entries for
  the others: the base name, a colon and the error text.
\<close>

definition physicalDisposal :: "'w sys \<Rightarrow> string \<Rightarrow> string \<Rightarrow> 'w \<Rightarrow> string \<Rightarrow> string + 'w" where
  "physicalDisposal sy trashDir layout w p =
     (if trashDir \<noteq> []
      then os_Rename sy w p (trashDestination sy w trashDir layout (fp_Base sy p))
      else os_Remove sy w p)"

primrec outcomes :: "('w \<Rightarrow> string \<Rightarrow> string + 'w) \<Rightarrow> 'w \<Rightarrow> string list \<Rightarrow> (string \<times> string option) list" where
  "outcomes att w [] = []"
| "outcomes att w (p # ps) =
     (case att w p of
        Inl err \<Rightarrow> (p, Some err) # outcomes att w ps
      | Inr w' \<Rightarrow> (p, None) # outcomes att w' ps)"

primrec worldAfter :: "('w \<Rightarrow> string \<Rightarrow> string + 'w) \<Rightarrow> 'w \<Rightarrow> string list \<Rightarrow> 'w" where
  "worldAfter att w [] = w"
| "worldAfter att w (p # ps) =
     (case att w p of Inl err \<Rightarrow> worldAfter att w ps | Inr w' \<Rightarrow> worldAfter att w' ps)"

definition succeeded :: "(string \<times> string option) list \<Rightarrow> string list" where
  "succeeded outs = map fst (filter (\<lambda>out. snd out = None) outs)"

definition failures :: "'w sys \<Rightarrow> (string \<times> string option) list \<Rightarrow> string list" where
  "failures sy outs =
     concat (map (\<lambda>out. case snd out of None \<Rightarrow> [] | Some err \<Rightarrow> [fp_Base sy (fst out) @ '': '' @ err])
               outs)"

text \<open>
  The files a rule map selects from a list of groups: for each group whose pattern
  identity (its distinct containing folders, sorted and joined with \<open>|\<close>) has a rule, the
  members whose containing folder is not the folder to keep.
\<close>

definition patternOf :: "'w sys \<Rightarrow> DuplicateGroup \<Rightarrow> string" where
  "patternOf sy g =
     strings_Join (sort (remdups (map (\<lambda>file. fp_Dir sy (Path file)) (Files g)))) ''|''"

definition batchTargets :: "'w sys \<Rightarrow> (string \<rightharpoonup> string) \<Rightarrow> DuplicateGroup list \<Rightarrow> ImageFile list" where
  "batchTargets sy ruleMap groups =
     concat (map (\<lambda>g. case ruleMap (patternOf sy g) of
                        None \<Rightarrow> []
                      | Some keepFolder \<Rightarrow>
                          filter (\<lambda>file. fp_Dir sy (Path file) \<noteq> keepFolder) (Files g))
               groups)"


definition sampleBatch :: BatchDeleteRequest where
  "sampleBatch =
     \<lparr>Rules = [\<lparr>PatternID = ''/a|/b'', KeepFolder = ''/b''\<rparr>], BatchTrashDir = []\<rparr>"

text \<open>
  For the scan.  \<open>visited\<close> lists the files that the callback appends to a batch, in
  walk order.  An index is \<open>wellFormed\<close> when the primary keys are distinct and not zero and
  the paths are distinct (the unique index).  A file is a \<open>cacheHit\<close> for an index that
  has a record under its normalized path with its size and modification time.
\<close>

definition visitedItem :: "'w sys \<Rightarrow> walkItem \<Rightarrow> fileInfo list" where
  "visitedItem sy item =
     (case item of
        WalkErr p err \<Rightarrow> []
      | WalkInfo p isDir sz mt \<Rightarrow>
          if isDir \<or> \<not> isImageFile sy p then []
          else [\<lparr>fi_path = p, fi_normalizedPath = fp_ToSlash sy p, fi_size = sz, fi_modTime = mt\<rparr>])"

definition visited :: "'w sys \<Rightarrow> walkItem list \<Rightarrow> fileInfo list" where
  "visited sy items = concat (map (visitedItem sy) items)"

definition wellFormed :: "db \<Rightarrow> bool" where
  "wellFormed d \<longleftrightarrow> distinct (map ID d) \<and> distinct (map Path d) \<and> 0 \<notin> set (map ID d)"

definition cacheHit :: "db \<Rightarrow> fileInfo \<Rightarrow> bool" where
  "cacheHit d fi \<longleftrightarrow>
     (\<exists>r \<in> set d. Path r = fi_normalizedPath fi \<and> Size r = fi_size fi \<and> ModTime r = fi_modTime fi)"

text \<open>
  The test of the loop of \<open>processBatch\<close> on the map of existing records, the record it
  builds for a file whose digest it computed, and the two lists the loop collects.
\<close>

definition cached :: "(string \<rightharpoonup> ImageFile) \<Rightarrow> fileInfo \<Rightarrow> bool" where
  "cached em fi \<longleftrightarrow>
     (case em (fi_normalizedPath fi) of
        Some e \<Rightarrow> ModTime e = fi_modTime fi \<and> Size e = fi_size fi
      | None \<Rightarrow> False)"

definition hashed :: "'w sys \<Rightarrow> 'w \<Rightarrow> fileInfo \<Rightarrow> ImageFile list" where
  "hashed sy w fi =
     (case calculateFileHash sy w (fi_path fi) of
        Inl err \<Rightarrow> []
      | Inr h \<Rightarrow> [\<lparr>ID = 0, Path = fi_normalizedPath fi, Size = fi_size fi, Hash = h,
                    ModTime = fi_modTime fi\<rparr>])"

definition creates :: "'w sys \<Rightarrow> 'w \<Rightarrow> (string \<rightharpoonup> ImageFile) \<Rightarrow> fileInfo list \<Rightarrow> ImageFile list" where
  "creates sy w em batch =
     concat (map (\<lambda>fi. if cached em fi then []
                        else (case em (fi_normalizedPath fi) of
                                None \<Rightarrow> hashed sy w fi
                              | Some e \<Rightarrow> [])) batch)"

definition updates :: "'w sys \<Rightarrow> 'w \<Rightarrow> (string \<rightharpoonup> ImageFile) \<Rightarrow> fileInfo list \<Rightarrow> ImageFile list" where
  "updates sy w em batch =
     concat (map (\<lambda>fi. if cached em fi then []
                        else (case em (fi_normalizedPath fi) of
                                None \<Rightarrow> []
                              | Some e \<Rightarrow> map (\<lambda>r. r\<lparr>ID := ID e\<rparr>) (hashed sy w fi))) batch)"

definition existingMapOf :: "string list \<Rightarrow> db \<Rightarrow> (string \<rightharpoonup> ImageFile)" where
  "existingMapOf paths d = foldl (\<lambda>m ef. m(Path ef \<mapsto> ef)) Map.empty (wherePathIn paths d)"

(*DEFS-END*)

section \<open>Properties of formatSize\<close>

lemma wrap64_id: "- (2 ^ 63) \<le> x \<Longrightarrow> x < 2 ^ 63 \<Longrightarrow> wrap64 x = x"
  by (simp add: wrap64_def)

lemma quot_nonneg: "0 \<le> a \<Longrightarrow> 0 < b \<Longrightarrow> quot a b = a div b"
  by (cases "a = 0") (simp_all add: quot_def)

lemma div1024_less: "a < 1024 * m \<Longrightarrow> a div 1024 < (m::int)"
  by (simp add: div_less_iff_less_mult mult.commute)

lemma formatSize_loop_bound:
  "0 \<le> n \<Longrightarrow> n < 1024 * 1024 ^ k \<Longrightarrow> 0 \<le> ex \<Longrightarrow> ex + int k < 2 ^ 63 \<Longrightarrow>
   ex \<le> snd (formatSize_loop n dv ex) \<and> snd (formatSize_loop n dv ex) \<le> ex + int k"
proof (induction k arbitrary: n dv ex)
  case 0
  then have "\<not> 1024 \<le> n" by simp
  then show ?case by (subst (1 2) formatSize_loop.simps) simp
next
  case (Suc k)
  show ?case
  proof (cases "1024 \<le> n")
    case False
    then show ?thesis by (subst (1 2) formatSize_loop.simps) simp
  next
    case True
    have q: "quot n 1024 = n div 1024" using Suc.prems(1) by (simp add: quot_nonneg)
    have w: "wrap64 (ex + 1) = ex + 1" using Suc.prems(3,4) by (simp add: wrap64_id)
    have "n < 1024 * (1024 * 1024 ^ k)" using Suc.prems(2) by simp
    then have a: "n div 1024 < 1024 * 1024 ^ k" by (rule div1024_less)
    have b: "0 \<le> n div 1024" using Suc.prems(1) by simp
    have c: "0 \<le> ex + 1" using Suc.prems(3) by simp
    have d: "ex + 1 + int k < 2 ^ 63" using Suc.prems(4) by simp
    note ih = Suc.IH [OF b a c d, of "wrap64 (dv * 1024)"]
    have e: "formatSize_loop n dv ex = formatSize_loop (n div 1024) (wrap64 (dv * 1024)) (ex + 1)"
      by (subst formatSize_loop.simps) (simp only: True q w if_True)
    show ?thesis unfolding e using ih by simp
  qed
qed

text \<open>
  Claim C10.  For every non-negative 64-bit size the loop of \<open>formatSize\<close> ends with an
  exponent between 0 and 5, so the index into \<open>"KMGTPE"\<close> is in range and the function
  returns a string (it does not panic); the function is total, its loop being defined with a
  termination proof.  For every size below 1024 the result is the decimal size followed
  by \<open>" B"\<close>.
\<close>
theorem formatSize_index_in_bounds:
  "(0 \<le> sz \<and> sz < 2 ^ 63 \<longrightarrow>
      0 \<le> snd (formatSize_loop (quot sz 1024) 1024 0) \<and>
      snd (formatSize_loop (quot sz 1024) 1024 0) < int (length ''KMGTPE'') \<and>
      (\<exists>s. formatSize fmt1f sz = Inr s)) \<and>
   (sz < 1024 \<longrightarrow> formatSize fmt1f sz = Inr (sprintf_d sz @ '' B''))"
proof (intro conjI impI)
  assume "0 \<le> sz \<and> sz < 2 ^ 63"
  then have a: "0 \<le> sz" "sz < 2 ^ 63" by simp_all
  then have q: "quot sz 1024 = sz div 1024" by (simp add: quot_nonneg)
  have "sz < 1024 * (1024 * 1024 ^ 5)" using a by simp
  then have "sz div 1024 < 1024 * 1024 ^ 5" by (rule div1024_less)
  moreover have "0 \<le> sz div 1024" using a by simp
  ultimately have b: "0 \<le> snd (formatSize_loop (sz div 1024) 1024 0) \<and>
      snd (formatSize_loop (sz div 1024) 1024 0) \<le> 0 + int 5"
    by (intro formatSize_loop_bound) simp_all
  show "0 \<le> snd (formatSize_loop (quot sz 1024) 1024 0)" using b q by simp
  show c: "snd (formatSize_loop (quot sz 1024) 1024 0) < int (length ''KMGTPE'')" using b q by simp
  show "\<exists>s. formatSize fmt1f sz = Inr s"
    using b q by (cases "formatSize_loop (sz div 1024) 1024 0") (simp add: formatSize_def)
next
  assume "sz < 1024"
  then show "formatSize fmt1f sz = Inr (sprintf_d sz @ '' B'')" by (simp add: formatSize_def)
qed

theorem formatSize_index_in_bounds_witness:
  "(0::int) \<le> 5000000 \<and> (5000000::int) < 2 ^ 63 \<and>
   snd (formatSize_loop (quot 5000000 1024) 1024 0) = 1 \<and>
   formatSize (\<lambda>a b. ''4.8'') 5000000 = Inr ''4.8 MB'' \<and>
   (1000::int) < 1024 \<and> formatSize (\<lambda>a b. ''4.8'') 1000 = Inr ''1000 B''"
proof -
  have e1: "snd (formatSize_loop (quot 5000000 1024) 1024 0) = 1" by code_simp
  have e2: "formatSize (\<lambda>a b. ''4.8'') 5000000 = Inr ''4.8 MB''" by code_simp
  have e3: "sprintf_d 1000 @ '' B'' = ''1000 B''" by code_simp
  show ?thesis
    using formatSize_index_in_bounds [of 5000000 "\<lambda>a b. ''4.8''"]
      formatSize_index_in_bounds [of 1000 "\<lambda>a b. ''4.8''"] e1 e2 e3
    by simp
qed

section \<open>The sorting loops\<close>

lemma length_exchange_inner [simp]: "length (exchange_inner sw i j s) = length s"
proof (induction sw i j s rule: exchange_inner.induct)
  case (1 sw i j s)
  show ?case
  proof (cases "j < length s")
    case True
    then show ?thesis using 1 by (subst exchange_inner.simps) simp
  next
    case False
    then show ?thesis by (subst exchange_inner.simps) simp
  qed
qed

lemma mset_exchange_inner: "i < j \<Longrightarrow> mset (exchange_inner sw i j s) = mset s"
proof (induction sw i j s rule: exchange_inner.induct)
  case (1 sw i j s)
  show ?case
  proof (cases "j < length s")
    case True
    let ?s = "if sw (s ! i) (s ! j) then s[i := s ! j, j := s ! i] else s"
    have "mset ?s = mset s" using True 1(2) by (simp add: mset_swap)
    moreover have "mset (exchange_inner sw i (j + 1) ?s) = mset ?s"
      using 1(1) [OF True] 1(2) by simp
    ultimately show ?thesis using True by (subst exchange_inner.simps) simp
  next
    case False
    then show ?thesis by (subst exchange_inner.simps) simp
  qed
qed

lemma take_exchange_inner: "i < j \<Longrightarrow> take i (exchange_inner sw i j s) = take i s"
proof (induction sw i j s rule: exchange_inner.induct)
  case (1 sw i j s)
  show ?case
  proof (cases "j < length s")
    case True
    let ?s = "if sw (s ! i) (s ! j) then s[i := s ! j, j := s ! i] else s"
    have "take i ?s = take i s" using 1(2) by simp
    moreover have "take i (exchange_inner sw i (j + 1) ?s) = take i ?s"
      using 1(1) [OF True] 1(2) by simp
    ultimately show ?thesis using True by (subst exchange_inner.simps) simp
  next
    case False
    then show ?thesis by (subst exchange_inner.simps) simp
  qed
qed

lemma head_exchange_inner:
  fixes key :: "'a \<Rightarrow> 'k::linorder"
  shows "sw = (\<lambda>a b. key b < key a) \<Longrightarrow> i < j \<Longrightarrow>
    \<forall>k. i < k \<and> k < j \<and> k < length s \<longrightarrow> key (s ! i) \<le> key (s ! k) \<Longrightarrow>
    \<forall>k. i < k \<and> k < length s \<longrightarrow>
       key (exchange_inner sw i j s ! i) \<le> key (exchange_inner sw i j s ! k)"
proof (induction sw i j s rule: exchange_inner.induct)
  case (1 sw i j s)
  note sw = "1.prems"(1)
  note ij = "1.prems"(2)
  note pre = "1.prems"(3)
  show ?case
  proof (cases "j < length s")
    case True
    let ?s = "if sw (s ! i) (s ! j) then s[i := s ! j, j := s ! i] else s"
    have len: "length ?s = length s" by simp
    have inv: "\<forall>k. i < k \<and> k < j + 1 \<and> k < length ?s \<longrightarrow> key (?s ! i) \<le> key (?s ! k)"
    proof (intro allI impI)
      fix k assume k: "i < k \<and> k < j + 1 \<and> k < length ?s"
      show "key (?s ! i) \<le> key (?s ! k)"
      proof (cases "sw (s ! i) (s ! j)")
        case swp: True
        then have lt: "key (s ! j) < key (s ! i)" by (simp add: sw)
        have i: "?s ! i = s ! j" using swp True ij by simp
        show ?thesis
        proof (cases "k = j")
          case True
          then have "?s ! k = s ! i" using swp \<open>j < length s\<close> by simp
          then show ?thesis using i lt by simp
        next
          case False
          then have kj: "k < j" using k by simp
          then have "?s ! k = s ! k" using swp k by simp
          moreover have "key (s ! i) \<le> key (s ! k)" using pre k kj True by simp
          ultimately show ?thesis using i lt by simp
        qed
      next
        case nsw: False
        then have le: "key (s ! i) \<le> key (s ! j)" by (simp add: sw not_less)
        show ?thesis
        proof (cases "k = j")
          case True
          then show ?thesis using nsw le by simp
        next
          case False
          then have kj: "k < j" using k by simp
          then show ?thesis using nsw pre k True by simp
        qed
      qed
    qed
    have ij': "i < j + 1" using ij by simp
    have "\<forall>k. i < k \<and> k < length ?s \<longrightarrow>
       key (exchange_inner sw i (j + 1) ?s ! i) \<le> key (exchange_inner sw i (j + 1) ?s ! k)"
      by (rule "1.IH" [OF True sw ij' inv])
    moreover have "exchange_inner sw i j s = exchange_inner sw i (j + 1) ?s"
      using True by (subst exchange_inner.simps) simp
    ultimately show ?thesis using len by simp
  next
    case False
    have "exchange_inner sw i j s = s"
      using False by (subst exchange_inner.simps) simp
    then show ?thesis using pre False by simp
  qed
qed

lemma drop_exchange_inner: "i < j \<Longrightarrow> mset (drop i (exchange_inner sw i j s)) = mset (drop i s)"
proof -
  assume ij: "i < j"
  let ?t = "exchange_inner sw i j s"
  have "mset (take i ?t) + mset (drop i ?t) = mset (take i s) + mset (drop i s)"
    using mset_exchange_inner [OF ij, of sw s]
    by (metis append_take_drop_id mset_append)
  then show ?thesis using take_exchange_inner [OF ij, of sw s] by simp
qed

lemma sorted_upto_step:
  fixes key :: "'a \<Rightarrow> 'k::linorder"
  assumes inv: "sorted_upto key i s" and i: "i + 1 < length s"
  shows "sorted_upto key (i + 1) (exchange_inner (\<lambda>a b. key b < key a) i (i + 1) s)"
proof -
  let ?sw = "\<lambda>a b. key b < key a"
  let ?t = "exchange_inner ?sw i (i + 1) s"
  have len: "length ?t = length s" by simp
  have tk: "take i ?t = take i s" by (simp add: take_exchange_inner)
  have dr: "set (drop i ?t) = set (drop i s)"
    using drop_exchange_inner [of i "i + 1" ?sw s] by (metis lessI Suc_eq_plus1 mset_eq_setD)
  have hd: "\<forall>k. i < k \<and> k < length s \<longrightarrow> key (?t ! i) \<le> key (?t ! k)"
    by (rule head_exchange_inner [where key = key]) (simp, simp, fastforce)
  have il: "i < length ?t" using i len by simp
  then have "drop i ?t = ?t ! i # drop (Suc i) ?t" by (simp only: Cons_nth_drop_Suc)
  then have ti: "?t ! i \<in> set (drop i ?t)" by simp
  have "take (Suc i) ?t = take i ?t @ [?t ! i]" using il by (rule take_Suc_conv_app_nth)
  then have tk1: "take (Suc i) ?t = take i s @ [?t ! i]" using tk by simp
  have below: "\<forall>x \<in> set (take i s). key x \<le> key (?t ! i)"
    using inv ti dr by (auto simp: sorted_upto_def)
  have s1: "sorted (map key (take (Suc i) ?t))"
    using inv below unfolding tk1 by (simp add: sorted_upto_def sorted_append)
  have s2: "\<forall>x \<in> set (take (Suc i) ?t). \<forall>y \<in> set (drop (Suc i) ?t). key x \<le> key y"
  proof (intro ballI)
    fix x y assume x: "x \<in> set (take (Suc i) ?t)" and y: "y \<in> set (drop (Suc i) ?t)"
    from y obtain k where k: "k < length ?t - Suc i" "y = ?t ! (Suc i + k)"
      by (auto simp: in_set_conv_nth)
    have yd: "y \<in> set (drop i ?t)" using y set_drop_subset_set_drop [of i "Suc i" ?t] by auto
    show "key x \<le> key y"
    proof (cases "x = ?t ! i")
      case True
      then show ?thesis using hd k len by simp
    next
      case False
      then have "x \<in> set (take i s)" using x unfolding tk1 by simp
      then show ?thesis using inv yd dr by (auto simp: sorted_upto_def)
    qed
  qed
  show ?thesis using s1 s2 by (simp add: sorted_upto_def)
qed

lemma exchange_outer_sorted:
  fixes key :: "'a \<Rightarrow> 'k::linorder"
  shows "sw = (\<lambda>a b. key b < key a) \<Longrightarrow> sorted_upto key i s \<Longrightarrow>
         sorted (map key (exchange_outer sw i s))"
proof (induction sw i s rule: exchange_outer.induct)
  case (1 sw i s)
  show ?case
  proof (cases "i + 1 < length s")
    case True
    have "sorted_upto key (i + 1) (exchange_inner sw i (i + 1) s)"
      unfolding "1.prems"(1) by (rule sorted_upto_step [OF "1.prems"(2) True])
    then have "sorted (map key (exchange_outer sw (i + 1) (exchange_inner sw i (i + 1) s)))"
      by (rule "1.IH" [OF True "1.prems"(1)])
    then show ?thesis using True by (subst exchange_outer.simps) simp
  next
    case False
    have e: "exchange_outer sw i s = s" using False by (subst exchange_outer.simps) simp
    have "length (drop i s) \<le> 1" using False by simp
    then have sd: "sorted (map key (drop i s))"
      by (cases "drop i s") simp_all
    have "s = take i s @ drop i s" by simp
    then have "map key s = map key (take i s) @ map key (drop i s)" by (metis map_append)
    then have "sorted (map key s)"
      using "1.prems"(2) sd unfolding sorted_upto_def by (simp add: sorted_append del: append_take_drop_id)
    then show ?thesis using e by simp
  qed
qed

lemma mset_exchange_outer: "mset (exchange_outer sw i s) = mset s"
proof (induction sw i s rule: exchange_outer.induct)
  case (1 sw i s)
  show ?case
  proof (cases "i + 1 < length s")
    case True
    then show ?thesis using 1 by (subst exchange_outer.simps) (simp add: mset_exchange_inner)
  next
    case False
    then show ?thesis by (subst exchange_outer.simps) simp
  qed
qed

lemma sortStrings_sorted: "sorted (sortStrings s)"
proof -
  have "sorted (map (\<lambda>x. x) (exchange_outer (\<lambda>a b. b < a) 0 s))"
    by (rule exchange_outer_sorted [where key = "\<lambda>x. x" and sw = "\<lambda>a b. b < a", OF refl])
       (simp add: sorted_upto_def)
  then show ?thesis by (simp add: sortStrings_def)
qed

lemma mset_sortStrings: "mset (sortStrings s) = mset s"
  by (simp add: sortStrings_def mset_exchange_outer)

lemma sortStrings_sort: "sortStrings s = sort s"
  by (rule properties_for_sort [symmetric]) (rule mset_sortStrings, rule sortStrings_sorted)

section \<open>Pattern identity\<close>

lemma foldl_mapInsert:
  "distinct acc \<Longrightarrow>
   distinct (foldl (\<lambda>m x. mapInsert (f x) m) acc xs) \<and>
   set (foldl (\<lambda>m x. mapInsert (f x) m) acc xs) = set acc \<union> f ` set xs"
proof (induction xs arbitrary: acc)
  case Nil
  then show ?case by simp
next
  case (Cons x xs)
  have "distinct (mapInsert (f x) acc)" using Cons.prems by (simp add: mapInsert_def)
  from Cons.IH [OF this] show ?case by (auto simp: mapInsert_def)
qed

lemma folderSet_distinct: "distinct (folderSet sy files)"
  using foldl_mapInsert [of "[]" "\<lambda>file. fp_Dir sy (Path file)" files]
  by (simp add: folderSet_def)

lemma folderSet_set: "set (folderSet sy files) = (\<lambda>file. fp_Dir sy (Path file)) ` set files"
  using foldl_mapInsert [of "[]" "\<lambda>file. fp_Dir sy (Path file)" files]
  by (simp add: folderSet_def)

lemma sorted_folders:
  assumes "rangeOrder rng"
  shows "sortStrings (rng (folderSet sy files)) =
         sort (remdups (map (\<lambda>file. fp_Dir sy (Path file)) files))"
proof -
  let ?ds = "remdups (map (\<lambda>file. fp_Dir sy (Path file)) files)"
  have "mset (folderSet sy files) = mset ?ds"
    by (rule iffD1 [OF set_eq_iff_mset_eq_distinct])
       (simp_all add: folderSet_distinct folderSet_set)
  then have m: "mset (sort ?ds) = mset (rng (folderSet sy files))"
    using assms by (simp add: rangeOrder_def)
  have "sort (rng (folderSet sy files)) = sort ?ds"
    by (rule properties_for_sort [OF m]) simp
  then show ?thesis by (simp add: sortStrings_sort)
qed

text \<open>
  Claim C3.  Whatever orders the two ranges over the folder set take, the pattern identity
  that \<open>handleGetFolderPatterns\<close> computes for a group (the key it enters into the pattern
  map) and the one \<open>handleBatchDelete\<close> computes for the same group (the key it looks up
  in the rule map) are both the distinct containing folders of the group, sorted
  lexicographically and joined with \<open>|\<close>.
\<close>
theorem pattern_identity_agrees:
  assumes "rangeOrder rng1" and "rangeOrder rng2"
  shows "map fst (patterns_loop sy rng1 [g] []) =
           [strings_Join (sort (remdups (map (\<lambda>file. fp_Dir sy (Path file)) (Files g)))) ''|''] \<and>
         batchDelete_group sy rng2 ruleMap trashDir st g =
           (case ruleMap
              (strings_Join (sort (remdups (map (\<lambda>file. fp_Dir sy (Path file)) (Files g)))) ''|'') of
              None \<Rightarrow> st
            | Some keepFolder \<Rightarrow> foldl (batchDelete_file sy trashDir keepFolder) st (Files g))"
  by (simp add: sorted_folders [OF assms(1)] sorted_folders [OF assms(2)]
      batchDelete_group_def createPatternID_def Let_def)

theorem pattern_identity_agrees_witness:
  "rangeOrder (\<lambda>xs::string list. xs) \<and> rangeOrder (rev :: string list \<Rightarrow> string list) \<and>
   map fst (patterns_loop listSys (\<lambda>xs. xs) [sampleGroup] []) = [''/a|/b''] \<and>
   batchDelete_group listSys rev (Map.empty(''/a|/b'' \<mapsto> ''/a'')) [] sampleState sampleGroup =
     foldl (batchDelete_file listSys [] ''/a'') sampleState (Files sampleGroup)"
proof -
  have r1: "rangeOrder (\<lambda>xs::string list. xs)" by (simp add: rangeOrder_def)
  have r2: "rangeOrder (rev :: string list \<Rightarrow> string list)" by (simp add: rangeOrder_def)
  have e: "strings_Join (sort (remdups (map (\<lambda>file. fp_Dir listSys (Path file)) (Files sampleGroup)))) ''|''
      = ''/a|/b''"
    by code_simp
  show ?thesis
    using pattern_identity_agrees [OF r1 r2, of listSys sampleGroup "Map.empty(''/a|/b'' \<mapsto> ''/a'')" "[]" sampleState]
    unfolding e using r1 r2 by simp
qed
section \<open>Order of the folder patterns\<close>

lemma sortPatternsByCount_sorted:
  "sorted_wrt (\<lambda>a b. DuplicateCount a \<ge> DuplicateCount b) (sortPatternsByCount ps)"
proof -
  have sw: "(\<lambda>a b. DuplicateCount a < DuplicateCount b) =
            (\<lambda>a b :: FolderPattern. - DuplicateCount b < - DuplicateCount a)"
    by (intro ext) simp
  have "sorted (map (\<lambda>p. - DuplicateCount p)
          (exchange_outer (\<lambda>a b. DuplicateCount a < DuplicateCount b) 0 ps))"
    by (rule exchange_outer_sorted [OF sw]) (simp add: sorted_upto_def)
  then show ?thesis by (simp add: sortPatternsByCount_def sorted_map)
qed

lemma mset_sortPatternsByCount: "mset (sortPatternsByCount ps) = mset ps"
  by (simp add: sortPatternsByCount_def mset_exchange_outer)

lemma patterns_loop_rng:
  assumes "rangeOrder rng" and "rangeOrder rng'"
  shows "patterns_loop sy rng groups m = patterns_loop sy rng' groups m"
  by (induction groups arbitrary: m)
     (simp_all add: sorted_folders [OF assms(1)] sorted_folders [OF assms(2)] Let_def
        split: option.splits)

lemma findDuplicatesPaginated_all:
  "\<exists>groups totalGroups totalFiles.
     findDuplicatesPaginated (Inr ks) d 0 100000 = Inr (groups, totalGroups, totalFiles)"
  by (simp add: findDuplicatesPaginated_def Let_def wrap64_def)

text \<open>
  Claim C8, as amended.  The listing returns the patterns in descending order of their
  group count.  Two calls on the same groups return the same multiset of patterns, whatever
  the orders of the ranges over the maps.  Nothing more is fixed about the order among
  patterns of equal count: the sort compares counts only, it is not stable, and its input
  comes from a range over a Go map.
\<close>

theorem folder_patterns_sorted_by_count:
  assumes "rangeOrder rngK" and "rangeOrder rngP" and "rangeOrder rngK'" and "rangeOrder rngP'"
  shows "\<exists>ps ps'. handleGetFolderPatterns sy rngK rngP (Inr ks) d = Inr ps \<and>
           handleGetFolderPatterns sy rngK' rngP' (Inr ks) d = Inr ps' \<and>
           sorted_wrt (\<lambda>a b. DuplicateCount a \<ge> DuplicateCount b) ps \<and>
           mset ps' = mset ps"
proof -
  obtain groups totalGroups totalFiles where
    f: "findDuplicatesPaginated (Inr ks) d 0 100000 = Inr (groups, totalGroups, totalFiles)"
    using findDuplicatesPaginated_all by blast
  let ?m = "map snd (patterns_loop sy rngK groups [])"
  have m': "map snd (patterns_loop sy rngK' groups []) = ?m"
    by (simp add: patterns_loop_rng [OF assms(3) assms(1)])
  have 1: "handleGetFolderPatterns sy rngK rngP (Inr ks) d = Inr (sortPatternsByCount (rngP ?m))"
    by (simp add: handleGetFolderPatterns_def f)
  have 2: "handleGetFolderPatterns sy rngK' rngP' (Inr ks) d = Inr (sortPatternsByCount (rngP' ?m))"
    by (simp add: handleGetFolderPatterns_def f m')
  have "mset (sortPatternsByCount (rngP' ?m)) = mset (sortPatternsByCount (rngP ?m))"
    using assms(2,4) by (simp add: mset_sortPatternsByCount rangeOrder_def)
  then show ?thesis using 1 2 sortPatternsByCount_sorted by blast
qed

theorem folder_patterns_sorted_by_count_witness:
  "rangeOrder (id :: string list \<Rightarrow> string list) \<and>
   rangeOrder (id :: FolderPattern list \<Rightarrow> FolderPattern list) \<and>
   rangeOrder (rev :: string list \<Rightarrow> string list) \<and>
   rangeOrder (rev :: FolderPattern list \<Rightarrow> FolderPattern list) \<and>
   (\<exists>ps ps'. handleGetFolderPatterns listSys id id (Inr sampleKeys) sampleDB = Inr ps \<and>
      handleGetFolderPatterns listSys rev rev (Inr sampleKeys) sampleDB = Inr ps' \<and>
      sorted_wrt (\<lambda>a b. DuplicateCount a \<ge> DuplicateCount b) ps \<and> mset ps' = mset ps)"
proof -
  have r: "rangeOrder (id :: string list \<Rightarrow> string list)"
    "rangeOrder (id :: FolderPattern list \<Rightarrow> FolderPattern list)"
    "rangeOrder (rev :: string list \<Rightarrow> string list)"
    "rangeOrder (rev :: FolderPattern list \<Rightarrow> FolderPattern list)"
    by (simp_all add: rangeOrder_def)
  show ?thesis
    using folder_patterns_sorted_by_count [OF r, of listSys sampleKeys sampleDB] r by blast
qed

text \<open>
  Claim C8 as stated fails: on the sample index both patterns have group count 1, and
  the two orders in which the range over the pattern map may yield them give two
  different responses.
\<close>

theorem folder_patterns_order_counterexample:
  "scannedSizeDesc sampleDB sampleKeys \<and>
   rangeOrder (id :: FolderPattern list \<Rightarrow> FolderPattern list) \<and>
   rangeOrder (rev :: FolderPattern list \<Rightarrow> FolderPattern list) \<and>
   handleGetFolderPatterns listSys id id (Inr sampleKeys) sampleDB =
     Inr [\<lparr>fpID = ''/a|/b'', Folders = [''/a'', ''/b''], DuplicateCount = 1, TotalFiles = 2\<rparr>,
          \<lparr>fpID = ''/c|/d'', Folders = [''/c'', ''/d''], DuplicateCount = 1, TotalFiles = 2\<rparr>] \<and>
   handleGetFolderPatterns listSys id rev (Inr sampleKeys) sampleDB =
     Inr [\<lparr>fpID = ''/c|/d'', Folders = [''/c'', ''/d''], DuplicateCount = 1, TotalFiles = 2\<rparr>,
          \<lparr>fpID = ''/a|/b'', Folders = [''/a'', ''/b''], DuplicateCount = 1, TotalFiles = 2\<rparr>] \<and>
   handleGetFolderPatterns listSys id id (Inr sampleKeys) sampleDB \<noteq>
     handleGetFolderPatterns listSys id rev (Inr sampleKeys) sampleDB"
proof -
  have s: "scannedSizeDesc sampleDB sampleKeys" by code_simp
  have r: "rangeOrder (id :: FolderPattern list \<Rightarrow> FolderPattern list)"
    "rangeOrder (rev :: FolderPattern list \<Rightarrow> FolderPattern list)"
    by (simp_all add: rangeOrder_def)
  have a: "handleGetFolderPatterns listSys id id (Inr sampleKeys) sampleDB =
     Inr [\<lparr>fpID = ''/a|/b'', Folders = [''/a'', ''/b''], DuplicateCount = 1, TotalFiles = 2\<rparr>,
          \<lparr>fpID = ''/c|/d'', Folders = [''/c'', ''/d''], DuplicateCount = 1, TotalFiles = 2\<rparr>]"
    by code_simp
  have b: "handleGetFolderPatterns listSys id rev (Inr sampleKeys) sampleDB =
     Inr [\<lparr>fpID = ''/c|/d'', Folders = [''/c'', ''/d''], DuplicateCount = 1, TotalFiles = 2\<rparr>,
          \<lparr>fpID = ''/a|/b'', Folders = [''/a'', ''/b''], DuplicateCount = 1, TotalFiles = 2\<rparr>]"
    by code_simp
  show ?thesis unfolding a b using s r by simp
qed
section \<open>The duplicate listings\<close>

lemma existingFiles_loop_eq:
  "existingFiles_loop sy w fs (acc, d) =
     (acc @ filter (\<lambda>f. os_Stat sy w (Path f)) fs,
      filter (\<lambda>r. ID r \<notin> ID ` {f \<in> set fs. \<not> os_Stat sy w (Path f)}) d)"
proof (induction fs arbitrary: acc d)
  case Nil
  then show ?case by simp
next
  case (Cons f fs)
  show ?case
  proof (cases "os_Stat sy w (Path f)")
    case True
    have "{x \<in> set (f # fs). \<not> os_Stat sy w (Path x)} = {x \<in> set fs. \<not> os_Stat sy w (Path x)}"
      using True by auto
    then show ?thesis using True Cons.IH by simp
  next
    case False
    have "{x \<in> set (f # fs). \<not> os_Stat sy w (Path x)} =
          insert f {x \<in> set fs. \<not> os_Stat sy w (Path x)}"
      using False by auto
    then show ?thesis using False Cons.IH by (simp add: dbDelete_def conj_commute)
  qed
qed

lemma findDuplicates_loop_Cons:
  "findDuplicates_loop sy w (hs # ks) (gs, d) =
   findDuplicates_loop sy w ks (gs @ newGroup sy w hs d, purge sy w hs d)"
  by (simp add: existingFiles_loop_eq newGroup_def purge_def survivors_def Let_def)

lemma purge_distinct:
  assumes "distinct (map ID d)"
  shows "purge sy w hs d =
         filter (\<lambda>r. \<not> (Hash r = hsHash hs \<and> Size r = hsSize hs \<and> \<not> os_Stat sy w (Path r))) d"
proof -
  have "ID r \<in> ID ` {f \<in> set (whereHashSize (hsHash hs) (hsSize hs) d). \<not> os_Stat sy w (Path f)}
        \<longleftrightarrow> Hash r = hsHash hs \<and> Size r = hsSize hs \<and> \<not> os_Stat sy w (Path r)"
    if r: "r \<in> set d" for r
  proof
    assume "ID r \<in> ID ` {f \<in> set (whereHashSize (hsHash hs) (hsSize hs) d). \<not> os_Stat sy w (Path f)}"
    then obtain f where f: "f \<in> set d" "Hash f = hsHash hs" "Size f = hsSize hs"
        "\<not> os_Stat sy w (Path f)" "ID r = ID f"
      by (auto simp: whereHashSize_def)
    have "inj_on ID (set d)" using assms by (simp add: distinct_map)
    then have "r = f" using r f(1,5) by (auto dest: inj_onD)
    then show "Hash r = hsHash hs \<and> Size r = hsSize hs \<and> \<not> os_Stat sy w (Path r)"
      using f by simp
  next
    assume "Hash r = hsHash hs \<and> Size r = hsSize hs \<and> \<not> os_Stat sy w (Path r)"
    then show "ID r \<in> ID ` {f \<in> set (whereHashSize (hsHash hs) (hsSize hs) d). \<not> os_Stat sy w (Path f)}"
      using r by (auto simp: whereHashSize_def)
  qed
  then show ?thesis unfolding purge_def by (intro filter_cong) auto
qed

lemma survivors_filter:
  "(\<And>r. os_Stat sy w (Path r) \<Longrightarrow> P r) \<Longrightarrow>
   survivors sy w h s (filter P d) = survivors sy w h s d"
  unfolding survivors_def whereHashSize_def filter_filter
  by (intro filter_cong) auto

text \<open>The closed form of the loop, for an index with a proper primary key.\<close>

lemma findDuplicates_loop_eq:
  assumes "distinct (map ID d)"
  shows "findDuplicates_loop sy w ks (gs, d) =
           (gs @ concat (map (\<lambda>hs. newGroup sy w hs d) ks),
            filter (\<lambda>r. \<not> stale sy w ks r) d)"
  using assms
proof (induction ks arbitrary: gs d)
  case Nil
  then show ?case by (simp add: stale_def)
next
  case (Cons hs ks)
  let ?P = "\<lambda>r. \<not> (Hash r = hsHash hs \<and> Size r = hsSize hs \<and> \<not> os_Stat sy w (Path r))"
  have p: "purge sy w hs d = filter ?P d" by (rule purge_distinct [OF Cons.prems])
  have dd: "distinct (map ID (filter ?P d))" using Cons.prems by (rule distinct_map_filter)
  have ng: "newGroup sy w k (filter ?P d) = newGroup sy w k d" for k
    by (simp add: newGroup_def survivors_filter)
  have st: "filter (\<lambda>r. \<not> stale sy w ks r) (filter ?P d) = filter (\<lambda>r. \<not> stale sy w (hs # ks) r) d"
    unfolding filter_filter by (intro filter_cong) (auto simp: stale_def keyOf_def)
  show ?case
    unfolding findDuplicates_loop_Cons p Cons.IH [OF dd] ng st by simp
qed

lemma findDuplicates_loop_ge2:
  "findDuplicates_loop sy w ks (gs, d) = (gs', d') \<Longrightarrow> \<forall>g \<in> set gs. 2 \<le> length (Files g) \<Longrightarrow>
   \<forall>g \<in> set gs'. 2 \<le> length (Files g)"
proof (induction ks arbitrary: gs d)
  case Nil
  then show ?case by simp
next
  case (Cons hs ks)
  have "\<forall>g \<in> set (gs @ newGroup sy w hs d). 2 \<le> length (Files g)"
    using Cons.prems(2) by (auto simp: newGroup_def)
  then show ?case using Cons.IH Cons.prems(1) unfolding findDuplicates_loop_Cons by blast
qed

lemma findDuplicatesPaginated_loop_eq:
  "findDuplicatesPaginated_loop ks d gs =
     gs @ concat (map (\<lambda>hs. if length (whereHashSize (hsHash hs) (hsSize hs) d) > 1
                            then [\<lparr>gHash = hsHash hs, gSize = hsSize hs,
                                   Files = whereHashSize (hsHash hs) (hsSize hs) d\<rparr>]
                            else []) ks)"
  by (induction ks arbitrary: gs) (simp_all add: Let_def)

lemma findDuplicatesPaginated_groups:
  assumes "findDuplicatesPaginated q d offset limit = Inr (groups, tg, tf)" and "g \<in> set groups"
  shows "2 \<le> length (Files g) \<and> Files g = whereHashSize (gHash g) (gSize g) d"
proof -
  from assms obtain ks where
    "g \<in> set (findDuplicatesPaginated_loop ks d [])"
    by (auto simp: findDuplicatesPaginated_def Let_def split: sum.splits if_splits)
  then show ?thesis by (auto simp: findDuplicatesPaginated_loop_eq split: if_splits)
qed

text \<open>
  Claim C5.  Every group returned by \<open>findDuplicates\<close> and by \<open>findDuplicatesPaginated\<close>
  has at least two members.  With a proper primary key, the members of a group returned by
  \<open>findDuplicates\<close> are exactly the records of its key whose file exists, so a key with
  fewer than two such records has no group; the members of a group returned by
  \<open>findDuplicatesPaginated\<close> are exactly the records of its key.
\<close>

theorem groups_have_two_members:
  "(findDuplicates sy w q d = Inr (groups, d') \<longrightarrow>
      (\<forall>g \<in> set groups. 2 \<le> length (Files g) \<and>
         (distinct (map ID d) \<longrightarrow> Files g = survivors sy w (gHash g) (gSize g) d))) \<and>
   (findDuplicatesPaginated q d offset limit = Inr (groups', tg, tf) \<longrightarrow>
      (\<forall>g \<in> set groups'. 2 \<le> length (Files g) \<and> Files g = whereHashSize (gHash g) (gSize g) d))"
proof (intro conjI impI ballI)
  fix g assume a: "findDuplicates sy w q d = Inr (groups, d')" and g: "g \<in> set groups"
  from a obtain ks where q: "q = Inr ks" and l: "findDuplicates_loop sy w ks ([], d) = (groups, d')"
    by (auto simp: findDuplicates_def split: sum.splits)
  show "2 \<le> length (Files g)" using findDuplicates_loop_ge2 [OF l] g by simp
  show "Files g = survivors sy w (gHash g) (gSize g) d" if "distinct (map ID d)"
  proof -
    have "groups = concat (map (\<lambda>hs. newGroup sy w hs d) ks)"
      using l findDuplicates_loop_eq [OF that, of sy w ks "[]"] by simp
    then show ?thesis using g by (auto simp: newGroup_def split: if_splits)
  qed
next
  fix g assume "findDuplicatesPaginated q d offset limit = Inr (groups', tg, tf)" "g \<in> set groups'"
  then show "2 \<le> length (Files g)" "Files g = whereHashSize (gHash g) (gSize g) d"
    using findDuplicatesPaginated_groups by blast+
qed

theorem groups_have_two_members_witness:
  "findDuplicates listSys sampleWorld (Inr sampleKeys) sampleDB =
     Inr ([\<lparr>gHash = ''x.jpg'', gSize = 8, Files = take 2 sampleDB\<rparr>], take 3 sampleDB) \<and>
   distinct (map ID sampleDB) \<and>
   2 \<le> length (take 2 sampleDB) \<and>
   take 2 sampleDB = survivors listSys sampleWorld ''x.jpg'' 8 sampleDB \<and>
   length (survivors listSys sampleWorld ''y.jpg'' 8 sampleDB) = 1 \<and>
   findDuplicatesPaginated (Inr sampleKeys) sampleDB 0 50 =
     Inr ([\<lparr>gHash = ''x.jpg'', gSize = 8, Files = take 2 sampleDB\<rparr>,
           \<lparr>gHash = ''y.jpg'', gSize = 8, Files = drop 2 sampleDB\<rparr>], 2, 4) \<and>
   2 \<le> length (drop 2 sampleDB) \<and>
   drop 2 sampleDB = whereHashSize ''y.jpg'' 8 sampleDB"
proof -
  have e1: "findDuplicates listSys sampleWorld (Inr sampleKeys) sampleDB =
     Inr ([\<lparr>gHash = ''x.jpg'', gSize = 8, Files = take 2 sampleDB\<rparr>], take 3 sampleDB)"
    by code_simp
  have e2: "findDuplicatesPaginated (Inr sampleKeys) sampleDB 0 50 =
     Inr ([\<lparr>gHash = ''x.jpg'', gSize = 8, Files = take 2 sampleDB\<rparr>,
           \<lparr>gHash = ''y.jpg'', gSize = 8, Files = drop 2 sampleDB\<rparr>], 2, 4)"
    by code_simp
  have e3: "distinct (map ID sampleDB)" by code_simp
  have e4: "length (survivors listSys sampleWorld ''y.jpg'' 8 sampleDB) = 1" by code_simp
  have b: "\<forall>g \<in> set [\<lparr>gHash = ''x.jpg'', gSize = 8, Files = take 2 sampleDB\<rparr>].
      2 \<le> length (Files g) \<and> Files g = survivors listSys sampleWorld (gHash g) (gSize g) sampleDB"
    "\<forall>g \<in> set [\<lparr>gHash = ''x.jpg'', gSize = 8, Files = take 2 sampleDB\<rparr>,
                  \<lparr>gHash = ''y.jpg'', gSize = 8, Files = drop 2 sampleDB\<rparr>].
      2 \<le> length (Files g) \<and> Files g = whereHashSize (gHash g) (gSize g) sampleDB"
    using groups_have_two_members [of listSys sampleWorld "Inr sampleKeys" sampleDB
        "[\<lparr>gHash = ''x.jpg'', gSize = 8, Files = take 2 sampleDB\<rparr>]" "take 3 sampleDB" 0 50
        "[\<lparr>gHash = ''x.jpg'', gSize = 8, Files = take 2 sampleDB\<rparr>,
          \<lparr>gHash = ''y.jpg'', gSize = 8, Files = drop 2 sampleDB\<rparr>]" 2 4] e1 e2 e3
    by blast+
  have c1: "take 2 sampleDB = survivors listSys sampleWorld ''x.jpg'' 8 sampleDB"
    using b(1) by simp
  have c2: "drop 2 sampleDB = whereHashSize ''y.jpg'' 8 sampleDB"
    using b(2) by simp
  have c3: "2 \<le> length (take 2 sampleDB)" "2 \<le> length (drop 2 sampleDB)"
    by (simp_all add: sampleDB_def)
  show ?thesis using e1 e2 e3 e4 c1 c2 c3 by blast
qed

lemma keys_groupedRows:
  "map keyOf (groupedRows d) =
     filter (\<lambda>(h, s). groupCount h s d > 1) (remdups (map (\<lambda>r. (Hash r, Size r)) d))"
  by (simp add: groupedRows_def keyOf_def comp_def case_prod_unfold)

lemma groupCount_pos_in: "1 < groupCount h s d \<Longrightarrow> (h, s) \<in> set (map (\<lambda>r. (Hash r, Size r)) d)"
proof -
  assume "1 < groupCount h s d"
  then have "whereHashSize h s d \<noteq> []" by (auto simp: groupCount_def)
  then obtain r where "r \<in> set (whereHashSize h s d)" by (cases "whereHashSize h s d") auto
  then show ?thesis by (auto simp: whereHashSize_def)
qed

lemma scanned_keys:
  assumes "scanned d ks"
  shows "set (map keyOf ks) = {(h, s). 1 < groupCount h s d}"
proof -
  have "set (map keyOf ks) = set (map keyOf (groupedRows d))"
    using assms by (simp add: scanned_def)
  also have "\<dots> = {(h, s). 1 < groupCount h s d}"
    unfolding keys_groupedRows using groupCount_pos_in by auto
  finally show ?thesis .
qed

lemma scanned_count:
  assumes "scanned d ks" and "hs \<in> set ks"
  shows "hsCount hs = groupCount (hsHash hs) (hsSize hs) d \<and> 1 < hsCount hs"
proof -
  have "hs \<in> set (groupedRows d)" using assms by (simp add: scanned_def)
  then show ?thesis by (auto simp: groupedRows_def)
qed

lemma scanned_distinct_keys:
  assumes "scanned d ks"
  shows "distinct (map keyOf ks)"
proof -
  have "inj_on keyOf (set ks)"
  proof (rule inj_onI)
    fix a b assume a: "a \<in> set ks" and b: "b \<in> set ks" and k: "keyOf a = keyOf b"
    have "hsCount a = hsCount b"
      using scanned_count [OF assms a] scanned_count [OF assms b] k by (simp add: keyOf_def)
    then show "a = b" using k by (simp add: keyOf_def)
  qed
  moreover have "distinct ks" using assms by (simp add: scanned_def)
  ultimately show ?thesis by (simp add: distinct_map)
qed

lemma scanned_length:
  assumes "scanned d ks"
  shows "length ks = card {(h, s). 1 < groupCount h s d}"
proof -
  have "card (set (map keyOf ks)) = length (map keyOf ks)"
    by (rule distinct_card [OF scanned_distinct_keys [OF assms]])
  then show ?thesis unfolding scanned_keys [OF assms] by simp
qed

lemma length_filter_disj:
  "(\<And>x. x \<in> set xs \<Longrightarrow> \<not> (P x \<and> Q x)) \<Longrightarrow>
   length (filter (\<lambda>x. P x \<or> Q x) xs) = length (filter P xs) + length (filter Q xs)"
  by (induction xs) auto

lemma sum_groupCount:
  "distinct K \<Longrightarrow>
   sum_list (map (\<lambda>(h, s). groupCount h s d) K) =
   int (length (filter (\<lambda>r. (Hash r, Size r) \<in> set K) d))"
proof (induction K)
  case Nil
  then show ?case by simp
next
  case (Cons k K)
  obtain h s where k: "k = (h, s)" by (cases k)
  have "length (filter (\<lambda>r. (Hash r = h \<and> Size r = s) \<or> (Hash r, Size r) \<in> set K) d) =
        length (filter (\<lambda>r. Hash r = h \<and> Size r = s) d) +
        length (filter (\<lambda>r. (Hash r, Size r) \<in> set K) d)"
    using Cons.prems k by (intro length_filter_disj) auto
  moreover have "filter (\<lambda>r. (Hash r, Size r) \<in> set (k # K)) d =
        filter (\<lambda>r. (Hash r = h \<and> Size r = s) \<or> (Hash r, Size r) \<in> set K) d"
    using k by (intro filter_cong) auto
  ultimately show ?case using Cons k by (simp add: groupCount_def whereHashSize_def)
qed

lemma foldl_add_sum_list: "foldl (\<lambda>t x. t + f x) a xs = a + sum_list (map f xs)"
  for a :: int
  by (induction xs arbitrary: a) simp_all

lemma scanned_total:
  assumes "scanned d ks"
  shows "foldl (\<lambda>t hs. t + hsCount hs) 0 ks =
         int (length (filter (\<lambda>r. 1 < groupCount (Hash r) (Size r) d) d))"
proof -
  have m: "map hsCount ks = map (\<lambda>(h, s). groupCount h s d) (map keyOf ks)"
    using scanned_count [OF assms] by (auto simp: keyOf_def)
  have "sum_list (map hsCount ks) =
      int (length (filter (\<lambda>r. (Hash r, Size r) \<in> set (map keyOf ks)) d))"
    unfolding m by (rule sum_groupCount [OF scanned_distinct_keys [OF assms]])
  also have "\<dots> = int (length (filter (\<lambda>r. 1 < groupCount (Hash r) (Size r) d) d))"
    unfolding scanned_keys [OF assms] by simp
  finally show ?thesis by (simp add: foldl_add_sum_list)
qed
section \<open>Lazy cleanup\<close>

lemma scanned_stale:
  assumes "scanned d ks"
  shows "stale sy w ks r \<longleftrightarrow> 1 < groupCount (Hash r) (Size r) d \<and> \<not> os_Stat sy w (Path r)"
  unfolding stale_def scanned_keys [OF assms] by simp

text \<open>
  Claim C2, as amended.  \<open>findDuplicates\<close>, run on the rows of the grouped query over an
  index with a proper primary key, deletes exactly the records that belong to a key with
  more than one record and whose \<open>os.Stat\<close> fails, and every file of every group it
  returns passes \<open>os.Stat\<close>.  \<open>findDuplicatesPaginated\<close> makes no existence check: every
  group it returns holds all the records of its key, whether their files exist or not.
\<close>

theorem lazy_cleanup_findDuplicates:
  assumes "scanned d ks" and "distinct (map ID d)"
  shows "(\<exists>groups d'. findDuplicates sy w (Inr ks) d = Inr (groups, d') \<and>
            d' = filter (\<lambda>r. \<not> (1 < groupCount (Hash r) (Size r) d \<and> \<not> os_Stat sy w (Path r))) d \<and>
            (\<forall>g \<in> set groups. \<forall>f \<in> set (Files g). os_Stat sy w (Path f))) \<and>
         (\<forall>offset limit groups tg tf.
            findDuplicatesPaginated (Inr ks) d offset limit = Inr (groups, tg, tf) \<longrightarrow>
            (\<forall>g \<in> set groups. Files g = whereHashSize (gHash g) (gSize g) d))"
proof (intro conjI allI impI)
  let ?groups = "concat (map (\<lambda>hs. newGroup sy w hs d) ks)"
  let ?d' = "filter (\<lambda>r. \<not> stale sy w ks r) d"
  have 1: "findDuplicates sy w (Inr ks) d = Inr (?groups, ?d')"
    by (simp add: findDuplicates_def findDuplicates_loop_eq [OF assms(2)])
  have 2: "?d' = filter (\<lambda>r. \<not> (1 < groupCount (Hash r) (Size r) d \<and> \<not> os_Stat sy w (Path r))) d"
    by (simp add: scanned_stale [OF assms(1)])
  have 3: "\<forall>g \<in> set ?groups. \<forall>f \<in> set (Files g). os_Stat sy w (Path f)"
    by (auto simp: newGroup_def survivors_def split: if_splits)
  show "\<exists>groups d'. findDuplicates sy w (Inr ks) d = Inr (groups, d') \<and>
            d' = filter (\<lambda>r. \<not> (1 < groupCount (Hash r) (Size r) d \<and> \<not> os_Stat sy w (Path r))) d \<and>
            (\<forall>g \<in> set groups. \<forall>f \<in> set (Files g). os_Stat sy w (Path f))"
    using 1 2 3 by (intro exI [of _ ?groups] exI [of _ ?d']) simp
next
  fix offset limit groups tg tf
  assume "findDuplicatesPaginated (Inr ks) d offset limit = Inr (groups, tg, tf)"
  then show "\<forall>g \<in> set groups. Files g = whereHashSize (gHash g) (gSize g) d"
    using findDuplicatesPaginated_groups by blast
qed

theorem lazy_cleanup_findDuplicates_witness:
  "scanned sampleDB sampleKeys \<and> distinct (map ID sampleDB) \<and>
   (\<exists>groups d'. findDuplicates listSys sampleWorld (Inr sampleKeys) sampleDB = Inr (groups, d') \<and>
      d' = take 3 sampleDB \<and>
      (\<forall>g \<in> set groups. \<forall>f \<in> set (Files g). os_Stat listSys sampleWorld (Path f)))"
proof -
  have s: "scanned sampleDB sampleKeys" by code_simp
  have i: "distinct (map ID sampleDB)" by code_simp
  have e: "filter (\<lambda>r. \<not> (1 < groupCount (Hash r) (Size r) sampleDB \<and>
              \<not> os_Stat listSys sampleWorld (Path r))) sampleDB = take 3 sampleDB"
    by code_simp
  show ?thesis
    using lazy_cleanup_findDuplicates [OF s i, of listSys sampleWorld] s i unfolding e by blast
qed

text \<open>
  Claim C2 as stated fails for the paginated listing: in \<open>sampleWorld\<close> the file
  \<open>/d/y.jpg\<close> is gone, and the page still lists its record.
\<close>

theorem paginated_keeps_stale_counterexample:
  "scannedSizeDesc sampleDB sampleKeys \<and>
   \<not> os_Stat listSys sampleWorld ''/d/y.jpg'' \<and>
   findDuplicatesPaginated (Inr sampleKeys) sampleDB 0 50 =
     Inr ([\<lparr>gHash = ''x.jpg'', gSize = 8,
            Files = [\<lparr>ID = 1, Path = ''/a/x.jpg'', Size = 8, Hash = ''x.jpg'', ModTime = 1\<rparr>,
                     \<lparr>ID = 2, Path = ''/b/x.jpg'', Size = 8, Hash = ''x.jpg'', ModTime = 1\<rparr>]\<rparr>,
           \<lparr>gHash = ''y.jpg'', gSize = 8,
            Files = [\<lparr>ID = 3, Path = ''/c/y.jpg'', Size = 8, Hash = ''y.jpg'', ModTime = 1\<rparr>,
                     \<lparr>ID = 4, Path = ''/d/y.jpg'', Size = 8, Hash = ''y.jpg'', ModTime = 1\<rparr>]\<rparr>],
          2, 4)"
  by code_simp

section \<open>Totals of the paginated listing\<close>

lemma scannedSizeDesc_scanned: "scannedSizeDesc d ks \<Longrightarrow> scanned d ks"
  by (simp add: scannedSizeDesc_def)

text \<open>
  Claim C9, as amended.  Let \<open>ks\<close> be the rows of the grouped query over the index \<open>d\<close>.
  When \<open>offset\<close> is at least the number of keys, or \<open>offset\<close> and \<open>limit\<close> are
  non-negative and their sum does not overflow, \<open>findDuplicatesPaginated\<close> returns, and
  its two totals are the number of keys with more than one record in \<open>d\<close> and the number
  of records of \<open>d\<close> that belong to such keys.  The totals come from \<open>ks\<close> alone: the
  index \<open>d2\<close> from which the file rows of the page are fetched plays no part in them.
\<close>

theorem totals_independent_of_page:
  assumes "scannedSizeDesc d ks"
    and "int (length ks) \<le> offset \<or> (0 \<le> offset \<and> 0 \<le> limit \<and> offset + limit < 2 ^ 63)"
  shows "\<exists>groups. findDuplicatesPaginated (Inr ks) d2 offset limit =
           Inr (groups, int (card {(h, s). 1 < groupCount h s d}),
                int (length (filter (\<lambda>r. 1 < groupCount (Hash r) (Size r) d) d)))"
proof -
  note s = scannedSizeDesc_scanned [OF assms(1)]
  have tg: "int (length ks) = int (card {(h, s). 1 < groupCount h s d})"
    by (simp add: scanned_length [OF s])
  note tf = scanned_total [OF s]
  show ?thesis
  proof (cases "int (length ks) \<le> offset")
    case True
    then show ?thesis by (simp add: findDuplicatesPaginated_def Let_def tg [symmetric] tf)
  next
    case False
    then have a: "0 \<le> offset" "0 \<le> limit" "offset + limit < 2 ^ 63" using assms(2) by simp_all
    then have w: "wrap64 (offset + limit) = offset + limit" by (simp add: wrap64_id)
    show ?thesis
      using False a by (simp add: findDuplicatesPaginated_def Let_def w tg [symmetric] tf)
  qed
qed

theorem totals_independent_of_page_witness:
  "scannedSizeDesc sampleDB sampleKeys \<and>
   (int (length sampleKeys) \<le> 1 \<or> ((0::int) \<le> 1 \<and> (0::int) \<le> 1 \<and> (1::int) + 1 < 2 ^ 63)) \<and>
   (\<exists>groups. findDuplicatesPaginated (Inr sampleKeys) [] 1 1 =
      Inr (groups, int (card {(h, s). 1 < groupCount h s sampleDB}),
           int (length (filter (\<lambda>r. 1 < groupCount (Hash r) (Size r) sampleDB) sampleDB)))) \<and>
   length (filter (\<lambda>r. 1 < groupCount (Hash r) (Size r) sampleDB) sampleDB) = 4"
proof -
  have s: "scannedSizeDesc sampleDB sampleKeys" by code_simp
  have h: "int (length sampleKeys) \<le> 1 \<or> ((0::int) \<le> 1 \<and> (0::int) \<le> 1 \<and> (1::int) + 1 < 2 ^ 63)"
    by simp
  have e: "length (filter (\<lambda>r. 1 < groupCount (Hash r) (Size r) sampleDB) sampleDB) = 4"
    by code_simp
  show ?thesis using totals_independent_of_page [OF s h, of "[]"] s h e by blast
qed

text \<open>
  Claim C9 as stated fails: with a negative offset, with a negative limit, and with a
  limit that makes \<open>offset + limit\<close> overflow, the slice expression panics and no total
  is reported.
\<close>

theorem totals_panic_counterexample:
  "scannedSizeDesc sampleDB sampleKeys \<and>
   findDuplicatesPaginated (Inr sampleKeys) sampleDB (- 1) 50 = Inl (RuntimePanic SliceBoundsOutOfRange) \<and>
   findDuplicatesPaginated (Inr sampleKeys) sampleDB 1 (- 2) = Inl (RuntimePanic SliceBoundsOutOfRange) \<and>
   findDuplicatesPaginated (Inr sampleKeys) sampleDB 1 (2 ^ 63 - 1) =
     Inl (RuntimePanic SliceBoundsOutOfRange)"
  by code_simp
section \<open>Pagination\<close>

lemma paginated_loop_scanned:
  assumes "scanned d ks" and "set ks' \<subseteq> set ks"
  shows "findDuplicatesPaginated_loop ks' d gs = gs @ map (groupOf d) ks'"
proof -
  have "1 < length (whereHashSize (hsHash hs) (hsSize hs) d)" if "hs \<in> set ks'" for hs
  proof -
    have "hs \<in> set ks" using that assms(2) by auto
    from scanned_count [OF assms(1) this] show ?thesis by (simp add: groupCount_def)
  qed
  then have "concat (map (\<lambda>hs. if length (whereHashSize (hsHash hs) (hsSize hs) d) > 1
                            then [\<lparr>gHash = hsHash hs, gSize = hsSize hs,
                                   Files = whereHashSize (hsHash hs) (hsSize hs) d\<rparr>]
                            else []) ks') = map (groupOf d) ks'"
    by (induction ks') (simp_all add: groupOf_def)
  then show ?thesis by (simp add: findDuplicatesPaginated_loop_eq)
qed

lemma findDuplicatesPaginated_page:
  assumes "scanned d ks" and "0 \<le> offset" and "0 \<le> limit" and "offset + limit < 2 ^ 63"
  shows "findDuplicatesPaginated (Inr ks) d offset limit =
           Inr (take (nat limit) (drop (nat offset) (map (groupOf d) ks)),
                int (length ks), foldl (\<lambda>t hs. t + hsCount hs) 0 ks)"
proof (cases "int (length ks) \<le> offset")
  case True
  then show ?thesis using assms(2) by (simp add: findDuplicatesPaginated_def Let_def)
next
  case False
  have w: "wrap64 (offset + limit) = offset + limit" using assms by (simp add: wrap64_id)
  let ?e = "if int (length ks) < offset + limit then int (length ks) else offset + limit"
  let ?p = "take (nat (?e - offset)) (drop (nat offset) ks)"
  have sub: "set ?p \<subseteq> set ks" by (meson set_take_subset set_drop_subset subset_trans)
  have p: "?p = take (nat limit) (drop (nat offset) ks)"
  proof (cases "int (length ks) < offset + limit")
    case True
    then have "length (drop (nat offset) ks) \<le> nat limit" using assms(2) by simp
    moreover have "length (drop (nat offset) ks) \<le> nat (int (length ks) - offset)"
      using assms(2) by simp
    ultimately show ?thesis using True by simp
  next
    case False
    then show ?thesis by simp
  qed
  have "findDuplicatesPaginated (Inr ks) d offset limit =
          Inr (findDuplicatesPaginated_loop ?p d [], int (length ks),
               foldl (\<lambda>t hs. t + hsCount hs) 0 ks)"
    using False assms(2,3) by (simp add: findDuplicatesPaginated_def Let_def w)
  also have "findDuplicatesPaginated_loop ?p d [] = map (groupOf d) ?p"
    using paginated_loop_scanned [OF assms(1) sub] by simp
  finally show ?thesis unfolding p by (simp add: take_map drop_map)
qed

text \<open>
  Claim C6, as amended.  The rows of the grouped query come in descending order of size;
  the code asks for no order among rows of equal size.  When two calls receive the rows
  in the same order \<open>ks\<close>, each page is the slice of the full listing at its offset and
  limit.  So the pages at offsets 0 and 50 with limit 50 are consecutive slices: put
  one after the other they are the first 100 groups of the full listing, whose keys are
  distinct and whose sizes descend.
\<close>

theorem pages_are_slices_of_full_listing:
  assumes "scannedSizeDesc d ks"
    and "int (length ks) \<le> full" and "full < 2 ^ 63"
    and "0 \<le> offset" and "0 \<le> limit" and "offset + limit < 2 ^ 63"
  shows "\<exists>gall tg tf.
           findDuplicatesPaginated (Inr ks) d 0 full = Inr (gall, tg, tf) \<and>
           findDuplicatesPaginated (Inr ks) d offset limit =
             Inr (take (nat limit) (drop (nat offset) gall), tg, tf) \<and>
           pageGroups (findDuplicatesPaginated (Inr ks) d 0 50) @
             pageGroups (findDuplicatesPaginated (Inr ks) d 50 50) = take 100 gall \<and>
           distinct (map (\<lambda>g. (gHash g, gSize g)) gall) \<and>
           sorted_wrt (\<lambda>a b. gSize a \<ge> gSize b) gall"
proof -
  note s = scannedSizeDesc_scanned [OF assms(1)]
  let ?gall = "map (groupOf d) ks"
  let ?tf = "foldl (\<lambda>t hs. t + hsCount hs) 0 ks"
  have len: "0 \<le> full" using assms(2) by simp
  have 1: "findDuplicatesPaginated (Inr ks) d 0 full = Inr (?gall, int (length ks), ?tf)"
    using findDuplicatesPaginated_page [OF s, of 0 full] assms(2,3) len by simp
  have 2: "findDuplicatesPaginated (Inr ks) d offset limit =
             Inr (take (nat limit) (drop (nat offset) ?gall), int (length ks), ?tf)"
    by (rule findDuplicatesPaginated_page [OF s assms(4,5,6)])
  have a: "pageGroups (findDuplicatesPaginated (Inr ks) d 0 50) = take 50 ?gall"
    using findDuplicatesPaginated_page [OF s, of 0 50] by (simp add: pageGroups_def)
  have b: "pageGroups (findDuplicatesPaginated (Inr ks) d 50 50) = take 50 (drop 50 ?gall)"
    using findDuplicatesPaginated_page [OF s, of 50 50] by (simp add: pageGroups_def)
  have 3: "pageGroups (findDuplicatesPaginated (Inr ks) d 0 50) @
             pageGroups (findDuplicatesPaginated (Inr ks) d 50 50) = take 100 ?gall"
    unfolding a b using take_add [of 50 50 ?gall] by simp
  have k: "map (\<lambda>g. (gHash g, gSize g)) ?gall = map keyOf ks"
    by (simp add: groupOf_def keyOf_def)
  have 4: "distinct (map (\<lambda>g. (gHash g, gSize g)) ?gall)"
    unfolding k by (rule scanned_distinct_keys [OF s])
  have "sorted_wrt (\<lambda>a b. hsSize a \<ge> hsSize b) ks" using assms(1) by (simp add: scannedSizeDesc_def)
  then have 5: "sorted_wrt (\<lambda>a b. gSize a \<ge> gSize b) ?gall"
    by (simp add: sorted_wrt_map groupOf_def)
  show ?thesis using 1 2 3 4 5 by blast
qed

theorem pages_are_slices_of_full_listing_witness:
  "scannedSizeDesc sampleDB sampleKeys \<and> int (length sampleKeys) \<le> 100000 \<and>
   (100000::int) < 2 ^ 63 \<and> (0::int) \<le> 1 \<and> (0::int) \<le> 1 \<and> (1::int) + 1 < 2 ^ 63 \<and>
   (\<exists>gall tg tf.
      findDuplicatesPaginated (Inr sampleKeys) sampleDB 0 100000 = Inr (gall, tg, tf) \<and>
      findDuplicatesPaginated (Inr sampleKeys) sampleDB 1 1 = Inr (take 1 (drop 1 gall), tg, tf) \<and>
      pageGroups (findDuplicatesPaginated (Inr sampleKeys) sampleDB 0 50) @
        pageGroups (findDuplicatesPaginated (Inr sampleKeys) sampleDB 50 50) = take 100 gall \<and>
      distinct (map (\<lambda>g. (gHash g, gSize g)) gall) \<and>
      sorted_wrt (\<lambda>a b. gSize a \<ge> gSize b) gall)"
proof -
  have s: "scannedSizeDesc sampleDB sampleKeys" by code_simp
  have l: "int (length sampleKeys) \<le> 100000" by code_simp
  have n: "(100000::int) < 2 ^ 63" "(0::int) \<le> 1" "(1::int) + 1 < 2 ^ 63" by simp_all
  show ?thesis
    using pages_are_slices_of_full_listing [OF s l n(1) n(2) n(2) n(3)] s l n by simp
qed

lemma manyHash_eq [simp]: "manyHash i = manyHash j \<longleftrightarrow> i = j"
  by (simp add: manyHash_def)

lemma manyDB_Suc: "manyDB (Suc n) = manyDB n @ manyRows n"
  by (simp add: manyDB_def)

lemma whereHashSize_append:
  "whereHashSize h s (a @ b) = whereHashSize h s a @ whereHashSize h s b"
  by (simp add: whereHashSize_def)

lemma whereHashSize_manyRows:
  "whereHashSize (manyHash i) 1 (manyRows j) = (if i = j then manyRows j else [])"
  by (auto simp: whereHashSize_def manyRows_def)

lemma whereHashSize_manyDB:
  "whereHashSize (manyHash i) 1 (manyDB n) = (if i < n then manyRows i else [])"
proof (induction n)
  case 0
  then show ?case by (simp add: manyDB_def whereHashSize_def)
next
  case (Suc n)
  then show ?case
    by (auto simp: manyDB_Suc whereHashSize_append whereHashSize_manyRows)
qed

lemma keys_manyDB: "set (map (\<lambda>r. (Hash r, Size r)) (manyDB n)) = (\<lambda>i. (manyHash i, 1)) ` {0..<n}"
proof (induction n)
  case 0
  then show ?case by (simp add: manyDB_def)
next
  case (Suc n)
  have r: "set (map (\<lambda>r. (Hash r, Size r)) (manyRows n)) = {(manyHash n, 1)}"
    by (simp add: manyRows_def)
  have "{0..<Suc n} = insert n {0..<n}" by auto
  then show ?case using Suc r unfolding manyDB_Suc by (simp del: set_map)
qed

lemma scanned_manyDB: "scanned (manyDB n) (manyKeys n)"
proof -
  have c: "groupCount (manyHash i) 1 (manyDB n) = 2" if "i < n" for i
    using that by (simp add: groupCount_def whereHashSize_manyDB manyRows_def)
  have "set (groupedRows (manyDB n)) =
        (\<lambda>(h, s). \<lparr>hsHash = h, hsSize = s, hsCount = groupCount h s (manyDB n)\<rparr>) `
          {k \<in> (\<lambda>i. (manyHash i, 1)) ` {0..<n}. case k of (h, s) \<Rightarrow> 1 < groupCount h s (manyDB n)}"
    unfolding groupedRows_def keys_manyDB [symmetric] by simp
  also have "\<dots> = (\<lambda>i. \<lparr>hsHash = manyHash i, hsSize = 1, hsCount = 2\<rparr>) ` {0..<n}"
    using c by (auto simp: image_iff)
  also have "\<dots> = set (manyKeys n)" by (simp add: manyKeys_def)
  finally have 1: "set (manyKeys n) = set (groupedRows (manyDB n))" by simp
  have "inj_on (\<lambda>i. \<lparr>hsHash = manyHash i, hsSize = 1, hsCount = 2\<rparr>) (set [0..<n])"
    by (rule inj_onI) simp
  then have 2: "distinct (manyKeys n)" by (simp add: manyKeys_def distinct_map)
  show ?thesis using 1 2 by (simp add: scanned_def)
qed

lemma scannedSizeDesc_manyDB:
  "scannedSizeDesc (manyDB n) (manyKeys n)" "scannedSizeDesc (manyDB n) (rev (manyKeys n))"
proof -
  have s: "\<forall>hs \<in> set (manyKeys n). hsSize hs = 1" by (simp add: manyKeys_def)
  have o: "sorted_wrt (\<lambda>a b. hsSize a \<ge> hsSize b) ks" if "\<forall>hs \<in> set ks. hsSize hs = 1"
    for ks :: "HashSizeCount list"
    using that by (induction ks) auto
  show "scannedSizeDesc (manyDB n) (manyKeys n)"
    using scanned_manyDB o [OF s] by (simp add: scannedSizeDesc_def)
  have "scanned (manyDB n) (rev (manyKeys n))"
    using scanned_manyDB [of n] by (simp add: scanned_def)
  moreover have "sorted_wrt (\<lambda>a b. hsSize a \<ge> hsSize b) (rev (manyKeys n))"
    using s by (intro o) simp
  ultimately show "scannedSizeDesc (manyDB n) (rev (manyKeys n))"
    by (simp add: scannedSizeDesc_def)
qed

text \<open>
  Claim C6 as stated fails.  The index \<open>manyDB 51\<close> has 51 keys of the same size, so
  \<open>manyKeys 51\<close> and its reverse are both results of the query ordered by size.  When the
  first call receives the one and the second call the other, the group of digest \<open>a\<close>
  is on the page at offset 0 and is also the page at offset 50: the two pages are not
  disjoint.
\<close>

theorem pagination_overlap_counterexample:
  "scannedSizeDesc (manyDB 51) (manyKeys 51) \<and>
   scannedSizeDesc (manyDB 51) (rev (manyKeys 51)) \<and>
   \<lparr>gHash = ''a'', gSize = 1,
    Files = [\<lparr>ID = 1, Path = ''/a/a'', Size = 1, Hash = ''a'', ModTime = 1\<rparr>,
             \<lparr>ID = 2, Path = ''/b/a'', Size = 1, Hash = ''a'', ModTime = 1\<rparr>]\<rparr>
     \<in> set (pageGroups (findDuplicatesPaginated (Inr (manyKeys 51)) (manyDB 51) 0 50)) \<and>
   pageGroups (findDuplicatesPaginated (Inr (rev (manyKeys 51))) (manyDB 51) 50 50) =
     [\<lparr>gHash = ''a'', gSize = 1,
       Files = [\<lparr>ID = 1, Path = ''/a/a'', Size = 1, Hash = ''a'', ModTime = 1\<rparr>,
                \<lparr>ID = 2, Path = ''/b/a'', Size = 1, Hash = ''a'', ModTime = 1\<rparr>]\<rparr>]"
proof -
  let ?k0 = "\<lparr>hsHash = manyHash 0, hsSize = 1, hsCount = 2\<rparr>"
  let ?g0 = "\<lparr>gHash = ''a'', gSize = 1,
    Files = [\<lparr>ID = 1, Path = ''/a/a'', Size = 1, Hash = ''a'', ModTime = 1\<rparr>,
             \<lparr>ID = 2, Path = ''/b/a'', Size = 1, Hash = ''a'', ModTime = 1\<rparr>]\<rparr>"
  have g0: "groupOf (manyDB 51) ?k0 = ?g0"
    by (simp add: groupOf_def whereHashSize_manyDB) (simp add: manyRows_def manyHash_def)
  have ks: "manyKeys 51 = ?k0 # map (\<lambda>i. \<lparr>hsHash = manyHash i, hsSize = 1, hsCount = 2\<rparr>) [1..<51]"
    by (simp add: manyKeys_def upt_conv_Cons)
  have len: "length (manyKeys 51) = 51" by (simp add: manyKeys_def)
  have s1: "scanned (manyDB 51) (manyKeys 51)"
    by (rule scannedSizeDesc_scanned [OF scannedSizeDesc_manyDB(1)])
  have s2: "scanned (manyDB 51) (rev (manyKeys 51))"
    by (rule scannedSizeDesc_scanned [OF scannedSizeDesc_manyDB(2)])
  have p1: "pageGroups (findDuplicatesPaginated (Inr (manyKeys 51)) (manyDB 51) 0 50) =
        take 50 (map (groupOf (manyDB 51)) (manyKeys 51))"
    using findDuplicatesPaginated_page [OF s1, of 0 50] by (simp add: pageGroups_def)
  have "take 50 (map (groupOf (manyDB 51)) (manyKeys 51)) =
        ?g0 # take 49 (map (groupOf (manyDB 51))
                 (map (\<lambda>i. \<lparr>hsHash = manyHash i, hsSize = 1, hsCount = 2\<rparr>) [1..<51]))"
    unfolding ks by (simp add: g0 del: upt_Suc)
  then have a: "?g0 \<in> set (pageGroups (findDuplicatesPaginated (Inr (manyKeys 51)) (manyDB 51) 0 50))"
    unfolding p1 by simp
  have "drop 50 (rev (manyKeys 51)) = rev (take 1 (manyKeys 51))"
    by (simp add: drop_rev len)
  also have "\<dots> = [?k0]" unfolding ks by simp
  finally have d: "drop 50 (rev (manyKeys 51)) = [?k0]" .
  have "pageGroups (findDuplicatesPaginated (Inr (rev (manyKeys 51))) (manyDB 51) 50 50) =
        take 50 (drop 50 (map (groupOf (manyDB 51)) (rev (manyKeys 51))))"
    using findDuplicatesPaginated_page [OF s2, of 50 50] by (simp add: pageGroups_def)
  also have "\<dots> = [?g0]" unfolding drop_map d by (simp add: g0)
  finally have b: "pageGroups (findDuplicatesPaginated (Inr (rev (manyKeys 51))) (manyDB 51) 50 50) = [?g0]" .
  show ?thesis using scannedSizeDesc_manyDB a b by simp
qed
section \<open>Disposal\<close>

lemma disposal_fold:
  assumes step: "\<And>st p. step st p =
      (case att (world st) p of
         Inl err \<Rightarrow> disposalFailed sy p err st
       | Inr w' \<Rightarrow> disposalDone sy p w' st)"
  shows "foldl step st ps =
     \<lparr>world = worldAfter att (world st) ps,
      indexDB = filter (\<lambda>r. Path r \<notin> set (map (fp_ToSlash sy) (succeeded (outcomes att (world st) ps))))
                  (indexDB st),
      successCount = successCount st + int (length (succeeded (outcomes att (world st) ps))),
      failedCount = failedCount st + int (length (failures sy (outcomes att (world st) ps))),
      failedFiles = failedFiles st @ failures sy (outcomes att (world st) ps)\<rparr>"
proof (induction ps arbitrary: st)
  case Nil
  show ?case by (simp add: succeeded_def failures_def)
next
  case (Cons p ps)
  show ?case
  proof (cases "att (world st) p")
    case (Inl err)
    have s: "step st p = disposalFailed sy p err st" by (simp add: step [of st p] Inl)
    have "foldl step st (p # ps) = foldl step (disposalFailed sy p err st) ps"
      by (simp only: foldl_Cons s)
    then show ?thesis using Inl
      by (simp add: Cons.IH disposalFailed_def succeeded_def failures_def)
  next
    case (Inr w')
    have "filter (\<lambda>r. Path r \<notin> set (map (fp_ToSlash sy) (succeeded (outcomes att w' ps))))
            (deleteWherePath (fp_ToSlash sy p) (indexDB st)) =
          filter (\<lambda>r. Path r \<notin> set (map (fp_ToSlash sy) (p # succeeded (outcomes att w' ps))))
            (indexDB st)"
      unfolding deleteWherePath_def filter_filter by (intro filter_cong) auto
    moreover have s: "step st p = disposalDone sy p w' st" by (simp add: step [of st p] Inr)
    moreover have "foldl step st (p # ps) = foldl step (disposalDone sy p w' st) ps"
      by (simp only: foldl_Cons s)
    ultimately show ?thesis using Inr
      by (simp add: Cons.IH disposalDone_def succeeded_def failures_def)
  qed
qed

lemma map_fst_outcomes: "map fst (outcomes att w ps) = ps"
  by (induction ps arbitrary: w) (simp_all split: sum.splits)

lemma length_outcomes [simp]: "length (outcomes att w ps) = length ps"
  by (induction ps arbitrary: w) (simp_all split: sum.splits)

lemma length_outcomes_split:
  "length (succeeded outs) + length (failures sy outs) = length outs"
  by (induction outs) (auto simp: succeeded_def failures_def split: option.splits)





section \<open>Batch rules\<close>

lemma batchDelete_file_step:
  "batchDelete_file sy trashDir keepFolder st file =
     (if fp_Dir sy (Path file) = keepFolder then st
      else (case physicalDisposal sy trashDir ''20060102_150405_000'' (world st) (Path file) of
              Inl err \<Rightarrow> disposalFailed sy (Path file) err st
            | Inr w' \<Rightarrow> disposalDone sy (Path file) w' st))"
  by (simp add: batchDelete_file_def physicalDisposal_def Let_def)

text \<open>The step of a disposal on a path, as both handlers perform it.\<close>

lemma batchDelete_files_fold:
  "foldl (batchDelete_file sy trashDir keepFolder) st files =
   foldl (\<lambda>st p. case physicalDisposal sy trashDir ''20060102_150405_000'' (world st) p of
                     Inl err \<Rightarrow> disposalFailed sy p err st
                   | Inr w' \<Rightarrow> disposalDone sy p w' st)
     st (map Path (filter (\<lambda>file. fp_Dir sy (Path file) \<noteq> keepFolder) files))"
  by (induction files arbitrary: st) (simp_all add: batchDelete_file_step)

lemma batchDelete_group_step:
  assumes "rangeOrder rng"
  shows "batchDelete_group sy rng ruleMap trashDir st g =
   foldl (\<lambda>st p. case physicalDisposal sy trashDir ''20060102_150405_000'' (world st) p of
                     Inl err \<Rightarrow> disposalFailed sy p err st
                   | Inr w' \<Rightarrow> disposalDone sy p w' st)
     st (map Path (batchTargets sy ruleMap [g]))"
  by (simp add: batchDelete_group_def Let_def sorted_folders [OF assms] createPatternID_def
      patternOf_def batchTargets_def batchDelete_files_fold split: option.splits)

lemma batchTargets_Cons:
  "batchTargets sy ruleMap (g # groups) = batchTargets sy ruleMap [g] @ batchTargets sy ruleMap groups"
  by (simp add: batchTargets_def)

lemma batchDelete_groups_fold:
  assumes "rangeOrder rng"
  shows "foldl (batchDelete_group sy rng ruleMap trashDir) st groups =
   foldl (\<lambda>st p. case physicalDisposal sy trashDir ''20060102_150405_000'' (world st) p of
                     Inl err \<Rightarrow> disposalFailed sy p err st
                   | Inr w' \<Rightarrow> disposalDone sy p w' st)
     st (map Path (batchTargets sy ruleMap groups))"
proof (induction groups arbitrary: st)
  case Nil
  show ?case by (simp add: batchTargets_def)
next
  case (Cons g groups)
  define G where "G = batchDelete_group sy rng ruleMap trashDir"
  define P where "P = (\<lambda>st p. case physicalDisposal sy trashDir ''20060102_150405_000'' (world st) p of
                     Inl err \<Rightarrow> disposalFailed sy p err st
                   | Inr w' \<Rightarrow> disposalDone sy p w' st)"
  have step: "G st' g' = foldl P st' (map Path (batchTargets sy ruleMap [g']))" for st' g'
    unfolding G_def P_def by (rule batchDelete_group_step [OF assms])
  have ih: "foldl G st' groups = foldl P st' (map Path (batchTargets sy ruleMap groups))" for st'
    unfolding G_def P_def by (rule Cons.IH)
  have "foldl G st (g # groups) =
        foldl P (foldl P st (map Path (batchTargets sy ruleMap [g])))
          (map Path (batchTargets sy ruleMap groups))"
    by (simp only: foldl_Cons ih step)
  also have "\<dots> = foldl P st (map Path (batchTargets sy ruleMap (g # groups)))"
    by (simp only: batchTargets_Cons [of sy ruleMap g groups] map_append foldl_append)
  finally show ?case unfolding G_def P_def .
qed

text \<open>
  Claim C4.  Let \<open>groups\<close> be the duplicate groups that \<open>handleBatchDelete\<close> lists and
  \<open>ruleMap\<close> the map it builds from the rules.  The files it tries to dispose of are
  exactly \<open>batchTargets\<close>: for each group whose pattern identity has a rule, the members
  whose containing folder differs from the folder to keep; the members in the folder to
  keep, and all members of a group without a rule, are not touched.  Each of these files
  is attempted once, in order, whether or not earlier ones failed, and the response
  counts the successes and the failures.
\<close>

theorem handleBatchDelete_targets:
  assumes "rangeOrder rng" and "Rules req \<noteq> []"
    and "if BatchTrashDir req \<noteq> [] then os_MkdirAll sy w (BatchTrashDir req) = Inr w1 else w1 = w"
  shows "let ruleMap = foldl (\<lambda>m rule. m(PatternID rule \<mapsto> KeepFolder rule)) Map.empty (Rules req);
             groups = pageGroups (findDuplicatesPaginated (Inr ks) d 0 100000);
             targets = map Path (batchTargets sy ruleMap groups);
             att = physicalDisposal sy (BatchTrashDir req) ''20060102_150405_000'';
             outs = outcomes att w1 targets
         in handleBatchDelete sy rng (Inr req) (Inr ks) w d =
              (Inr \<lparr>Success = int (length (succeeded outs)),
                    Failed = int (length (failures sy outs)),
                    FailedFiles = failures sy outs\<rparr>,
               worldAfter att w1 targets,
               filter (\<lambda>r. Path r \<notin> set (map (fp_ToSlash sy) (succeeded outs))) d) \<and>
            map fst outs = targets \<and>
            length (succeeded outs) + length (failures sy outs) = length targets"
proof -
  obtain groups tg tf where
    f: "findDuplicatesPaginated (Inr ks) d 0 100000 = Inr (groups, tg, tf)"
    using findDuplicatesPaginated_all by blast
  then have pg: "pageGroups (findDuplicatesPaginated (Inr ks) d 0 100000) = groups"
    by (simp add: pageGroups_def)
  let ?ruleMap = "foldl (\<lambda>m rule. m(PatternID rule \<mapsto> KeepFolder rule)) Map.empty (Rules req)"
  let ?targets = "map Path (batchTargets sy ?ruleMap groups)"
  let ?att = "physicalDisposal sy (BatchTrashDir req) ''20060102_150405_000''"
  let ?st = "\<lparr>world = w1, indexDB = d, successCount = 0, failedCount = 0, failedFiles = []\<rparr>"
  have m: "(if BatchTrashDir req \<noteq> [] then os_MkdirAll sy w (BatchTrashDir req) else Inr w) = Inr w1"
    using assms(3) by (simp split: if_splits)
  have "foldl (batchDelete_group sy rng ?ruleMap (BatchTrashDir req)) ?st groups =
        \<lparr>world = worldAfter ?att w1 ?targets,
         indexDB = filter (\<lambda>r. Path r \<notin> set (map (fp_ToSlash sy)
                      (succeeded (outcomes ?att w1 ?targets)))) d,
         successCount = int (length (succeeded (outcomes ?att w1 ?targets))),
         failedCount = int (length (failures sy (outcomes ?att w1 ?targets))),
         failedFiles = failures sy (outcomes ?att w1 ?targets)\<rparr>"
    unfolding batchDelete_groups_fold [OF assms(1)]
    using disposal_fold [where att = ?att and sy = sy and st = ?st and ps = ?targets, OF refl]
    by simp
  then have "handleBatchDelete sy rng (Inr req) (Inr ks) w d =
      (Inr \<lparr>Success = int (length (succeeded (outcomes ?att w1 ?targets))),
            Failed = int (length (failures sy (outcomes ?att w1 ?targets))),
            FailedFiles = failures sy (outcomes ?att w1 ?targets)\<rparr>,
       worldAfter ?att w1 ?targets,
       filter (\<lambda>r. Path r \<notin> set (map (fp_ToSlash sy) (succeeded (outcomes ?att w1 ?targets)))) d)"
    using assms(2) by (simp add: handleBatchDelete_def f m respond_def Let_def)
  then show ?thesis
    using length_outcomes_split [of "outcomes ?att w1 ?targets" sy]
    by (simp add: Let_def pg map_fst_outcomes)
qed

theorem handleBatchDelete_targets_witness:
  "rangeOrder (rev :: string list \<Rightarrow> string list) \<and> Rules sampleBatch \<noteq> [] \<and>
   (if BatchTrashDir sampleBatch \<noteq> []
    then os_MkdirAll listSys sampleWorld (BatchTrashDir sampleBatch) = Inr sampleWorld
    else sampleWorld = sampleWorld) \<and>
   map Path (batchTargets listSys
     (foldl (\<lambda>m rule. m(PatternID rule \<mapsto> KeepFolder rule)) Map.empty (Rules sampleBatch))
     (pageGroups (findDuplicatesPaginated (Inr sampleKeys) sampleDB 0 100000))) = [''/a/x.jpg''] \<and>
   handleBatchDelete listSys rev (Inr sampleBatch) (Inr sampleKeys) sampleWorld sampleDB =
     (Inr \<lparr>Success = 1, Failed = 0, FailedFiles = []\<rparr>,
      [''/b/x.jpg'', ''/c/y.jpg''], drop 1 sampleDB)"
proof -
  have h1: "rangeOrder (rev :: string list \<Rightarrow> string list)" by (simp add: rangeOrder_def)
  have h2: "Rules sampleBatch \<noteq> []" by (simp add: sampleBatch_def)
  have h3: "if BatchTrashDir sampleBatch \<noteq> []
    then os_MkdirAll listSys sampleWorld (BatchTrashDir sampleBatch) = Inr sampleWorld
    else sampleWorld = sampleWorld"
    by (simp add: sampleBatch_def)
  have e0: "map Path (batchTargets listSys
     (foldl (\<lambda>m rule. m(PatternID rule \<mapsto> KeepFolder rule)) Map.empty (Rules sampleBatch))
     (pageGroups (findDuplicatesPaginated (Inr sampleKeys) sampleDB 0 100000))) = [''/a/x.jpg'']"
    by code_simp
  have e1: "outcomes (physicalDisposal listSys (BatchTrashDir sampleBatch) ''20060102_150405_000'')
              sampleWorld [''/a/x.jpg''] = [(''/a/x.jpg'', None)]"
    by code_simp
  have e2: "worldAfter (physicalDisposal listSys (BatchTrashDir sampleBatch) ''20060102_150405_000'')
              sampleWorld [''/a/x.jpg''] = [''/b/x.jpg'', ''/c/y.jpg'']"
    by code_simp
  have e3: "filter (\<lambda>r. Path r \<notin> set (map (fp_ToSlash listSys) (succeeded [(''/a/x.jpg'', None)])))
              sampleDB = drop 1 sampleDB"
    by code_simp
  have e4: "failures listSys [(''/a/x.jpg'', None)] = []"
    "length (succeeded [(''/a/x.jpg'', None)]) = 1"
    by code_simp+
  show ?thesis
    using handleBatchDelete_targets [OF h1 h2 h3, of sampleKeys sampleDB] h1 h2 h3 e0
    unfolding Let_def e0 e1 e2 e3 e4 by simp
qed
section \<open>Scanning\<close>

lemma creates_Cons: "creates sy w em (fi # batch) = creates sy w em [fi] @ creates sy w em batch"
  by (simp add: creates_def)

lemma updates_Cons: "updates sy w em (fi # batch) = updates sy w em [fi] @ updates sy w em batch"
  by (simp add: updates_def)

lemma processBatch_loop_step:
  "processBatch_loop sy w em (fi # batch) (tc, tu, calls) =
   processBatch_loop sy w em batch
     (tc @ creates sy w em [fi], tu @ updates sy w em [fi],
      calls @ (if cached em fi then [] else [fi_path fi]))"
proof (cases "em (fi_normalizedPath fi)")
  case None
  show ?thesis
  proof (cases "calculateFileHash sy w (fi_path fi)")
    case (Inl err)
    then show ?thesis using None by (simp add: creates_def updates_def hashed_def cached_def)
  next
    case (Inr h)
    then show ?thesis using None by (simp add: creates_def updates_def hashed_def cached_def)
  qed
next
  case (Some e)
  show ?thesis
  proof (cases "ModTime e = fi_modTime fi \<and> Size e = fi_size fi")
    case True
    then show ?thesis using Some by (simp add: creates_def updates_def cached_def)
  next
    case False
    show ?thesis
    proof (cases "calculateFileHash sy w (fi_path fi)")
      case (Inl err)
      then show ?thesis using Some False
        by (auto simp: creates_def updates_def hashed_def cached_def)
    next
      case (Inr h)
      then show ?thesis using Some False
        by (auto simp: creates_def updates_def hashed_def cached_def)
    qed
  qed
qed

lemma processBatch_loop_eq:
  "processBatch_loop sy w em batch (tc, tu, calls) =
     (tc @ creates sy w em batch, tu @ updates sy w em batch,
      calls @ map fi_path (filter (\<lambda>fi. \<not> cached em fi) batch))"
proof (induction batch arbitrary: tc tu calls)
  case Nil
  show ?case by (simp add: creates_def updates_def)
next
  case (Cons fi batch)
  show ?case
    unfolding processBatch_loop_step Cons.IH
    by (simp add: creates_Cons [of sy w em fi batch] updates_Cons [of sy w em fi batch])
qed

lemma foldl_upd_find:
  "distinct (map Path xs) \<Longrightarrow>
   foldl (\<lambda>m ef. m(Path ef \<mapsto> ef)) m0 xs q =
     (case find (\<lambda>r. Path r = q) xs of Some r \<Rightarrow> Some r | None \<Rightarrow> m0 q)"
proof (induction xs arbitrary: m0)
  case Nil
  show ?case by simp
next
  case (Cons x xs)
  have d: "distinct (map Path xs)" using Cons.prems by simp
  have "Path x \<notin> Path ` set xs" using Cons.prems by simp
  then have nx: "\<forall>y \<in> set xs. Path y \<noteq> Path x" by (auto simp: image_iff)
  have s: "foldl (\<lambda>m ef. m(Path ef \<mapsto> ef)) m0 (x # xs) q =
        (case find (\<lambda>r. Path r = q) xs of Some r \<Rightarrow> Some r | None \<Rightarrow> (m0(Path x \<mapsto> x)) q)"
    unfolding foldl_Cons by (rule Cons.IH [OF d])
  show ?case
  proof (cases "Path x = q")
    case True
    then have "find (\<lambda>r. Path r = q) xs = None" using nx by (simp add: find_None_iff)
    then show ?thesis unfolding s using True by simp
  next
    case False
    then show ?thesis unfolding s by (cases "find (\<lambda>r. Path r = q) xs") simp_all
  qed
qed

lemma find_wherePathIn:
  "find (\<lambda>r. Path r = q) (wherePathIn paths d) =
     (if q \<in> set paths then find (\<lambda>r. Path r = q) d else None)"
  by (induction d) (auto simp: wherePathIn_def)

lemma existingMapOf_eq:
  assumes "distinct (map Path d)"
  shows "existingMapOf paths d q = (if q \<in> set paths then find (\<lambda>r. Path r = q) d else None)"
proof -
  have "distinct (map Path (wherePathIn paths d))"
    unfolding wherePathIn_def using assms by (rule distinct_map_filter)
  then show ?thesis
    by (simp add: existingMapOf_def foldl_upd_find find_wherePathIn split: option.splits)
qed

lemma Path_unique:
  assumes "distinct (map Path d)" and "r \<in> set d" and "r' \<in> set d" and "Path r = Path r'"
  shows "r = r'"
proof -
  have i: "inj_on Path (set d)" using assms(1) by (simp only: distinct_map)
  show ?thesis by (rule inj_onD [OF i assms(4) assms(2) assms(3)])
qed

lemma find_Path_Some:
  assumes "distinct (map Path d)"
  shows "find (\<lambda>r. Path r = q) d = Some r \<longleftrightarrow> r \<in> set d \<and> Path r = q"
proof
  assume "find (\<lambda>r. Path r = q) d = Some r"
  then obtain i where "i < length d" "Path (d ! i) = q" "r = d ! i"
    unfolding find_Some_iff by blast
  then show "r \<in> set d \<and> Path r = q" by simp
next
  assume a: "r \<in> set d \<and> Path r = q"
  have "find (\<lambda>r. Path r = q) d \<noteq> None"
    unfolding find_None_iff using a by blast
  then obtain r' where f: "find (\<lambda>r. Path r = q) d = Some r'" by blast
  then obtain i where "i < length d" "Path (d ! i) = q" "r' = d ! i"
    unfolding find_Some_iff by blast
  then have "r' \<in> set d" "Path r' = Path r" using a by simp_all
  then have "r' = r" using Path_unique [OF assms, of r' r] a by simp
  then show "find (\<lambda>r. Path r = q) d = Some r" using f by simp
qed

lemma existingMapOf_Some:
  assumes "distinct (map Path d)" and "q \<in> set paths"
  shows "existingMapOf paths d q = Some r \<longleftrightarrow> r \<in> set d \<and> Path r = q"
  unfolding existingMapOf_eq [OF assms(1)] using assms(2) find_Path_Some [OF assms(1), of q r]
  by simp

lemma existingMapOf_None:
  assumes "distinct (map Path d)" and "q \<in> set paths"
  shows "existingMapOf paths d q = None \<longleftrightarrow> (\<forall>r \<in> set d. Path r \<noteq> q)"
  unfolding existingMapOf_eq [OF assms(1)] using assms(2) by (simp add: find_None_iff Ball_def)

lemma cached_cacheHit:
  assumes "distinct (map Path d)" and "fi \<in> set batch"
  shows "cached (existingMapOf (map fi_normalizedPath batch) d) fi \<longleftrightarrow> cacheHit d fi"
proof -
  let ?em = "existingMapOf (map fi_normalizedPath batch) d"
  have q: "fi_normalizedPath fi \<in> set (map fi_normalizedPath batch)" using assms(2) by simp
  show ?thesis
  proof (cases "?em (fi_normalizedPath fi)")
    case None
    then have n: "\<forall>r \<in> set d. Path r \<noteq> fi_normalizedPath fi"
      using existingMapOf_None [OF assms(1) q] by simp
    have "\<not> cacheHit d fi" unfolding cacheHit_def using n by blast
    moreover have "\<not> cached ?em fi" unfolding cached_def using None by simp
    ultimately show ?thesis by simp
  next
    case (Some e)
    then have e: "e \<in> set d" "Path e = fi_normalizedPath fi"
      using existingMapOf_Some [OF assms(1) q, of e] by simp_all
    have c: "cached ?em fi \<longleftrightarrow> ModTime e = fi_modTime fi \<and> Size e = fi_size fi"
      unfolding cached_def using Some by simp
    have "cacheHit d fi \<longleftrightarrow> ModTime e = fi_modTime fi \<and> Size e = fi_size fi"
    proof
      assume "cacheHit d fi"
      then obtain r where r: "r \<in> set d" "Path r = fi_normalizedPath fi"
          "Size r = fi_size fi" "ModTime r = fi_modTime fi"
        unfolding cacheHit_def by blast
      have "r = e" using Path_unique [OF assms(1) r(1) e(1)] r(2) e(2) by simp
      then show "ModTime e = fi_modTime fi \<and> Size e = fi_size fi" using r by simp
    next
      assume "ModTime e = fi_modTime fi \<and> Size e = fi_size fi"
      then show "cacheHit d fi" unfolding cacheHit_def using e by blast
    qed
    then show ?thesis using c by simp
  qed
qed

text \<open>The writes to the index.\<close>

lemma ID_less_nextID: "r \<in> set d \<Longrightarrow> ID r < nextID d"
proof (induction d)
  case Nil
  then show ?case by simp
next
  case (Cons x d)
  then show ?case by (auto simp: nextID_def)
qed

lemma map_ID_assignIDs: "map ID (assignIDs n recs) = [n..<n + length recs]"
  by (induction recs arbitrary: n) (simp_all add: upt_rec)

lemma map_Path_assignIDs: "map Path (assignIDs n recs) = map Path recs"
  by (induction recs arbitrary: n) simp_all

lemma assignIDs_fields:
  "r \<in> set (assignIDs n recs) \<Longrightarrow>
   \<exists>rec \<in> set recs. Path r = Path rec \<and> Size r = Size rec \<and> ModTime r = ModTime rec"
  by (induction recs arbitrary: n) auto

lemma assignIDs_covers:
  "rec \<in> set recs \<Longrightarrow>
   \<exists>r \<in> set (assignIDs n recs). Path r = Path rec \<and> Size r = Size rec \<and> ModTime r = ModTime rec"
  by (induction recs arbitrary: n) auto

lemma dbCreate_fresh:
  assumes "wellFormed d" and "distinct (map Path recs)"
    and "\<forall>rec \<in> set recs. \<forall>r \<in> set d. Path r \<noteq> Path rec"
  shows "dbCreate recs d = d @ assignIDs (nextID d) recs"
    and "wellFormed (d @ assignIDs (nextID d) recs)"
proof -
  have np: "\<forall>rec \<in> set recs. Path rec \<notin> set (map Path d)"
  proof (intro ballI notI)
    fix rec assume rec: "rec \<in> set recs" and "Path rec \<in> set (map Path d)"
    then obtain r where "r \<in> set d" "Path r = Path rec" by (auto simp: image_iff)
    then show False using assms(3) rec by blast
  qed
  then show "dbCreate recs d = d @ assignIDs (nextID d) recs"
    using assms(2) by (simp add: dbCreate_def)
  have ids: "set (map ID d) \<inter> set [nextID d..<nextID d + length recs] = {}"
    using ID_less_nextID [of _ d] by fastforce
  have "0 < nextID d" by (simp add: nextID_def)
  then have z: "0 \<notin> set [nextID d..<nextID d + length recs]" by simp
  have paths: "set (map Path d) \<inter> set (map Path recs) = {}"
  proof (rule ccontr)
    assume "set (map Path d) \<inter> set (map Path recs) \<noteq> {}"
    then obtain q where "q \<in> set (map Path d)" "q \<in> set (map Path recs)" by blast
    then obtain r rec where a: "r \<in> set d" "Path r = q" "rec \<in> set recs" "Path rec = q"
      by (auto simp: image_iff)
    have "Path r \<noteq> Path rec" using assms(3) a(1,3) by blast
    then show False using a(2,4) by simp
  qed
  show "wellFormed (d @ assignIDs (nextID d) recs)"
    using assms(1,2) ids z paths
    unfolding wellFormed_def map_append distinct_append map_ID_assignIDs map_Path_assignIDs
    by simp
qed

lemma dbSave_existing:
  assumes "wellFormed d" and "e \<in> set d" and "ID u = ID e" and "Path u = Path e"
  shows "wellFormed (dbSave u d)" and "set (dbSave u d) = insert u (set d - {e})"
proof -
  have nz: "ID u \<noteq> 0" using assms(1,2,3) by (auto simp: wellFormed_def)
  have inid: "ID u \<in> set (map ID d)" using assms(2,3) by auto
  have dp: "distinct (map Path d)" and di: "distinct (map ID d)"
    using assms(1) by (simp_all add: wellFormed_def)
  have ii: "inj_on ID (set d)" using di by (simp only: distinct_map)
  have one: "ID r = ID u \<longleftrightarrow> r = e" if "r \<in> set d" for r
    using inj_onD [OF ii _ that assms(2)] assms(3) by auto
  have noconf: "\<not> (\<exists>r \<in> set d. ID r \<noteq> ID u \<and> Path r = Path u)"
  proof
    assume "\<exists>r \<in> set d. ID r \<noteq> ID u \<and> Path r = Path u"
    then obtain r where r: "r \<in> set d" "ID r \<noteq> ID u" "Path r = Path u" by blast
    have "r = e" using Path_unique [OF dp r(1) assms(2)] r(3) assms(4) by simp
    then show False using r(2) assms(3) by simp
  qed
  have eq: "dbSave u d = map (\<lambda>r. if ID r = ID u then u else r) d"
    unfolding dbSave_def using nz inid noconf by (simp only: if_False if_True)
  have mi: "map ID (map (\<lambda>r. if ID r = ID u then u else r) d) = map ID d"
    by (induction d) simp_all
  have mp: "map Path (map (\<lambda>r. if ID r = ID u then u else r) d) = map Path d"
    using one assms(4) by (intro map_idI [THEN trans [OF _], rotated] list.map_cong0 [THEN trans [OF map_map]]) auto
  show "wellFormed (dbSave u d)"
    using assms(1) unfolding eq wellFormed_def mi mp .
  have "set (map (\<lambda>r. if ID r = ID u then u else r) d) = insert u (set d - {e})"
    using one assms(2) by (auto simp: image_iff)
  then show "set (dbSave u d) = insert u (set d - {e})" unfolding eq .
qed

lemma dbSave_fold:
  assumes "wellFormed dc" and "distinct (map Path us)"
    and "\<forall>u \<in> set us. \<exists>e \<in> set dc. ID u = ID e \<and> Path u = Path e"
  shows "wellFormed (foldl (\<lambda>d' f. dbSave f d') dc us) \<and>
         set (foldl (\<lambda>d' f. dbSave f d') dc us) =
           {r \<in> set dc. \<forall>u \<in> set us. Path r \<noteq> Path u} \<union> set us"
  using assms
proof (induction us arbitrary: dc)
  case Nil
  then show ?case by simp
next
  case (Cons u us)
  from Cons.prems(3) obtain e where e: "e \<in> set dc" "ID u = ID e" "Path u = Path e" by auto
  have dp: "distinct (map Path dc)" using Cons.prems(1) by (simp add: wellFormed_def)
  note sv = dbSave_existing [OF Cons.prems(1) e]
  have du: "distinct (map Path us)" and nu: "\<forall>u' \<in> set us. Path u' \<noteq> Path u"
    using Cons.prems(2) by (auto simp: image_iff)
  have ex: "\<forall>u' \<in> set us. \<exists>e' \<in> set (dbSave u dc). ID u' = ID e' \<and> Path u' = Path e'"
  proof
    fix u' assume u': "u' \<in> set us"
    with Cons.prems(3) obtain e' where e': "e' \<in> set dc" "ID u' = ID e'" "Path u' = Path e'"
      by auto
    have "Path e' \<noteq> Path e" using nu u' e'(3) e(3) by auto
    then have "e' \<noteq> e" by auto
    then have "e' \<in> set (dbSave u dc)" using e'(1) sv(2) by simp
    then show "\<exists>e' \<in> set (dbSave u dc). ID u' = ID e' \<and> Path u' = Path e'" using e'(2,3) by blast
  qed
  note ih = Cons.IH [OF sv(1) du ex]
  have same: "Path r = Path u \<longleftrightarrow> r = e" if "r \<in> set dc" for r
    using Path_unique [OF dp that e(1)] e(3) by auto
  have "{r \<in> set (dbSave u dc). \<forall>u' \<in> set us. Path r \<noteq> Path u'} \<union> set us =
        {r \<in> set dc. \<forall>v \<in> set (u # us). Path r \<noteq> Path v} \<union> set (u # us)"
  proof (intro set_eqI iffI)
    fix r assume "r \<in> {r \<in> set (dbSave u dc). \<forall>u' \<in> set us. Path r \<noteq> Path u'} \<union> set us"
    then consider "r \<in> set us" | "r = u" | "r \<in> set dc" "r \<noteq> e" "\<forall>u' \<in> set us. Path r \<noteq> Path u'"
      unfolding sv(2) by blast
    then show "r \<in> {r \<in> set dc. \<forall>v \<in> set (u # us). Path r \<noteq> Path v} \<union> set (u # us)"
    proof cases
      case 1 then show ?thesis by simp
    next
      case 2 then show ?thesis by simp
    next
      case 3
      then have "Path r \<noteq> Path u" using same [OF 3(1)] by simp
      then show ?thesis using 3 by simp
    qed
  next
    fix r assume "r \<in> {r \<in> set dc. \<forall>v \<in> set (u # us). Path r \<noteq> Path v} \<union> set (u # us)"
    then consider "r \<in> set us" | "r = u" | "r \<in> set dc" "Path r \<noteq> Path u" "\<forall>u' \<in> set us. Path r \<noteq> Path u'"
      by auto
    then show "r \<in> {r \<in> set (dbSave u dc). \<forall>u' \<in> set us. Path r \<noteq> Path u'} \<union> set us"
    proof cases
      case 1 then show ?thesis by simp
    next
      case 2
      have "\<forall>u' \<in> set us. Path u \<noteq> Path u'" using nu by (simp add: Ball_def) metis
      then show ?thesis using 2 sv(2) by simp
    next
      case 3
      then have "r \<noteq> e" using same [OF 3(1)] by simp
      then show ?thesis using 3 sv(2) by simp
    qed
  qed
  then show ?case using ih by simp
qed

text \<open>The records that the loop of a batch collects.\<close>

lemma hashed_fields:
  "rec \<in> set (hashed sy w fi) \<Longrightarrow>
   ID rec = 0 \<and> Path rec = fi_normalizedPath fi \<and> Size rec = fi_size fi \<and> ModTime rec = fi_modTime fi"
  by (cases "calculateFileHash sy w (fi_path fi)") (simp_all add: hashed_def)

lemma hashed_empty:
  "hashed sy w fi = [] \<longleftrightarrow> (\<exists>err. calculateFileHash sy w (fi_path fi) = Inl err)"
  by (cases "calculateFileHash sy w (fi_path fi)") (simp_all add: hashed_def)

lemma length_hashed: "length (hashed sy w fi) \<le> 1"
  by (cases "calculateFileHash sy w (fi_path fi)") (simp_all add: hashed_def)

lemma in_creates:
  "rec \<in> set (creates sy w em batch) \<longleftrightarrow>
   (\<exists>fi \<in> set batch. \<not> cached em fi \<and> em (fi_normalizedPath fi) = None \<and> rec \<in> set (hashed sy w fi))"
  by (induction batch) (auto simp: creates_def split: option.splits)

lemma in_updates:
  "u \<in> set (updates sy w em batch) \<longleftrightarrow>
   (\<exists>fi \<in> set batch. \<exists>e rec. \<not> cached em fi \<and> em (fi_normalizedPath fi) = Some e \<and>
       rec \<in> set (hashed sy w fi) \<and> u = rec\<lparr>ID := ID e\<rparr>)"
proof -
  define f where "f = (\<lambda>fi. if cached em fi then []
                       else (case em (fi_normalizedPath fi) of
                               None \<Rightarrow> []
                             | Some e \<Rightarrow> map (\<lambda>r. r\<lparr>ID := ID e\<rparr>) (hashed sy w fi)))"
  have one: "u \<in> set (f fi) \<longleftrightarrow>
        (\<exists>e rec. \<not> cached em fi \<and> em (fi_normalizedPath fi) = Some e \<and>
           rec \<in> set (hashed sy w fi) \<and> u = rec\<lparr>ID := ID e\<rparr>)" for fi
  proof (cases "cached em fi")
    case True
    then show ?thesis by (simp add: f_def)
  next
    case False
    show ?thesis
    proof (cases "em (fi_normalizedPath fi)")
      case None
      then show ?thesis using False by (simp add: f_def)
    next
      case (Some e)
      have "u \<in> set (f fi) \<longleftrightarrow> (\<exists>rec \<in> set (hashed sy w fi). u = rec\<lparr>ID := ID e\<rparr>)"
        using False Some by (simp add: f_def image_iff)
      then show ?thesis using False Some by (simp add: Bex_def)
    qed
  qed
  have "updates sy w em batch = concat (map f batch)" by (simp add: updates_def f_def)
  then have "u \<in> set (updates sy w em batch) \<longleftrightarrow> (\<exists>fi \<in> set batch. u \<in> set (f fi))"
    by simp
  then show ?thesis unfolding one .
qed

text \<open>The effect of \<open>processBatch\<close>.\<close>

lemma processBatch_eq:
  assumes "distinct (map Path dc)"
  shows "processBatch sy w batch (dc, calls) =
     (foldl (\<lambda>d' f. dbSave f d')
        (if length (creates sy w (existingMapOf (map fi_normalizedPath batch) dc) batch) > 0
         then dbCreate (creates sy w (existingMapOf (map fi_normalizedPath batch) dc) batch) dc
         else dc)
        (updates sy w (existingMapOf (map fi_normalizedPath batch) dc) batch),
      calls @ map fi_path (filter (\<lambda>fi. \<not> cacheHit dc fi) batch))"
proof (cases "batch = []")
  case True
  then show ?thesis by (simp add: processBatch_def creates_def updates_def)
next
  case False
  let ?em = "existingMapOf (map fi_normalizedPath batch) dc"
  have f: "filter (\<lambda>fi. \<not> cached ?em fi) batch = filter (\<lambda>fi. \<not> cacheHit dc fi) batch"
    by (rule filter_cong [OF refl]) (simp add: cached_cacheHit [OF assms])
  have "processBatch sy w batch (dc, calls) =
     (case processBatch_loop sy w ?em batch ([], [], calls) of
        (toCreate, toUpdate, calls') \<Rightarrow>
          (foldl (\<lambda>d' f. dbSave f d')
             (if length toCreate > 0 then dbCreate toCreate dc else dc) toUpdate, calls'))"
    using False by (simp add: processBatch_def existingMapOf_def Let_def)
  then show ?thesis unfolding processBatch_loop_eq f by simp
qed

lemma processBatch_settled:
  assumes "distinct (map Path dc)"
    and "\<forall>fi \<in> set batch. cacheHit dc fi \<or> (\<exists>err. calculateFileHash sy w (fi_path fi) = Inl err)"
  shows "processBatch sy w batch (dc, calls) =
         (dc, calls @ map fi_path (filter (\<lambda>fi. \<not> cacheHit dc fi) batch))"
proof -
  let ?em = "existingMapOf (map fi_normalizedPath batch) dc"
  have h: "hashed sy w fi = []" if "fi \<in> set batch" "\<not> cached ?em fi" for fi
  proof -
    have "\<not> cacheHit dc fi" using that cached_cacheHit [OF assms(1) that(1)] by simp
    then have "\<exists>err. calculateFileHash sy w (fi_path fi) = Inl err" using assms(2) that(1) by blast
    then show ?thesis by (simp only: hashed_empty)
  qed
  have "rec \<notin> set (creates sy w ?em batch)" for rec
    unfolding in_creates using h by fastforce
  then have c: "creates sy w ?em batch = []"
    by (cases "creates sy w ?em batch") auto
  have "u \<notin> set (updates sy w ?em batch)" for u
    unfolding in_updates using h by fastforce
  then have u: "updates sy w ?em batch = []"
    by (cases "updates sy w ?em batch") auto
  show ?thesis unfolding processBatch_eq [OF assms(1)] c u by simp
qed

lemma distinct_Path_concat:
  "distinct (map k xs) \<Longrightarrow> (\<forall>x \<in> set xs. \<forall>r \<in> set (f x). Path r = k x) \<Longrightarrow>
   (\<forall>x \<in> set xs. length (f x) \<le> 1) \<Longrightarrow> distinct (map Path (concat (map f xs)))"
proof (induction xs)
  case Nil
  then show ?case by simp
next
  case (Cons x xs)
  have ih: "distinct (map Path (concat (map f xs)))" using Cons by simp
  have one: "distinct (map Path (f x))"
  proof (cases "f x")
    case Nil then show ?thesis by simp
  next
    case (Cons a as)
    then have "as = []" using Cons.prems(3) by simp
    then show ?thesis using Cons by simp
  qed
  have "k x \<notin> k ` set xs" using Cons.prems(1) by simp
  then have nk: "\<forall>y \<in> set xs. k y \<noteq> k x" by (auto simp: image_iff)
  have disj: "set (map Path (f x)) \<inter> set (map Path (concat (map f xs))) = {}"
  proof (rule ccontr)
    assume "set (map Path (f x)) \<inter> set (map Path (concat (map f xs))) \<noteq> {}"
    then obtain q where "q \<in> set (map Path (f x))" "q \<in> set (map Path (concat (map f xs)))"
      by blast
    then obtain r y r' where a: "r \<in> set (f x)" "Path r = q" "y \<in> set xs" "r' \<in> set (f y)" "Path r' = q"
      by (auto simp: image_iff)
    have "q = k x" using Cons.prems(2) a(1,2) by auto
    moreover have "q = k y" using Cons.prems(2) a(3,4,5) by auto
    ultimately show False using nk a(3) by simp
  qed
  show ?case using ih one disj by (simp del: set_map set_concat)
qed

lemma processBatch_effect:
  assumes wf: "wellFormed dc" and dn: "distinct (map fi_normalizedPath batch)"
  shows "\<exists>dc'. processBatch sy w batch (dc, calls) =
            (dc', calls @ map fi_path (filter (\<lambda>fi. \<not> cacheHit dc fi) batch)) \<and>
          wellFormed dc' \<and>
          (\<forall>q. (\<forall>fi \<in> set batch. fi_normalizedPath fi = q \<longrightarrow> cacheHit dc fi) \<longrightarrow>
               (\<forall>r. (r \<in> set dc' \<and> Path r = q) = (r \<in> set dc \<and> Path r = q))) \<and>
          (\<forall>fi \<in> set batch. cacheHit dc' fi \<or> (\<exists>err. calculateFileHash sy w (fi_path fi) = Inl err))"
proof -
  let ?paths = "map fi_normalizedPath batch"
  let ?em = "existingMapOf ?paths dc"
  let ?cr = "creates sy w ?em batch"
  let ?up = "updates sy w ?em batch"
  let ?d1 = "dc @ assignIDs (nextID dc) ?cr"
  let ?dc' = "foldl (\<lambda>d' f. dbSave f d') ?d1 ?up"
  have dp: "distinct (map Path dc)" using wf by (simp add: wellFormed_def)
  have inp: "fi_normalizedPath fi \<in> set ?paths" if "fi \<in> set batch" for fi using that by simp
  have same_fi: "fi' = fi" if "fi \<in> set batch" "fi' \<in> set batch"
      "fi_normalizedPath fi' = fi_normalizedPath fi" for fi fi'
  proof -
    have i: "inj_on fi_normalizedPath (set batch)" using dn by (simp only: distinct_map)
    show ?thesis by (rule inj_onD [OF i that(3) that(2) that(1)])
  qed
  have crP: "\<exists>fi \<in> set batch. \<not> cacheHit dc fi \<and> (\<forall>r \<in> set dc. Path r \<noteq> fi_normalizedPath fi) \<and>
               Path rec = fi_normalizedPath fi \<and> Size rec = fi_size fi \<and> ModTime rec = fi_modTime fi"
    if "rec \<in> set ?cr" for rec
  proof -
    from that obtain fi where fi: "fi \<in> set batch" "\<not> cached ?em fi"
        "?em (fi_normalizedPath fi) = None" "rec \<in> set (hashed sy w fi)"
      unfolding in_creates by blast
    have 1: "\<not> cacheHit dc fi" using fi(2) cached_cacheHit [OF dp fi(1)] by simp
    have 2: "\<forall>r \<in> set dc. Path r \<noteq> fi_normalizedPath fi"
      using fi(3) existingMapOf_None [OF dp inp [OF fi(1)]] by simp
    show ?thesis using fi(1) 1 2 hashed_fields [OF fi(4)] by blast
  qed
  have upP: "\<exists>fi \<in> set batch. \<exists>e \<in> set dc. \<not> cacheHit dc fi \<and> Path e = fi_normalizedPath fi \<and>
               ID u = ID e \<and> Path u = fi_normalizedPath fi \<and> Size u = fi_size fi \<and>
               ModTime u = fi_modTime fi"
    if "u \<in> set ?up" for u
  proof -
    from that obtain fi e rec where fi: "fi \<in> set batch" "\<not> cached ?em fi"
        "?em (fi_normalizedPath fi) = Some e" "rec \<in> set (hashed sy w fi)" "u = rec\<lparr>ID := ID e\<rparr>"
      unfolding in_updates by blast
    have 1: "\<not> cacheHit dc fi" using fi(2) cached_cacheHit [OF dp fi(1)] by simp
    have 2: "e \<in> set dc" "Path e = fi_normalizedPath fi"
      using fi(3) existingMapOf_Some [OF dp inp [OF fi(1)], of e] by simp_all
    have 3: "ID u = ID e" "Path u = fi_normalizedPath fi" "Size u = fi_size fi"
        "ModTime u = fi_modTime fi"
      using fi(5) hashed_fields [OF fi(4)] by simp_all
    show ?thesis using fi(1) 1 2 3 by blast
  qed
  have hf: "Path r = fi_normalizedPath fi" if "r \<in> set (hashed sy w fi)" for r fi
    using hashed_fields [OF that] by simp
  have hl: "length (hashed sy w fi) \<le> Suc 0" for fi
    using length_hashed [of sy w fi] by simp
  have dcr: "distinct (map Path ?cr)"
    unfolding creates_def
  proof (rule distinct_Path_concat [OF dn], goal_cases)
    case 1
    show ?case by (auto split: option.splits simp: hf)
  next
    case 2
    show ?case by (auto split: option.splits simp: hl)
  qed
  have dup: "distinct (map Path ?up)"
    unfolding updates_def
  proof (rule distinct_Path_concat [OF dn], goal_cases)
    case 1
    show ?case by (auto split: option.splits simp: hf)
  next
    case 2
    show ?case by (auto split: option.splits simp: hl)
  qed
  have fresh: "\<forall>rec \<in> set ?cr. \<forall>r \<in> set dc. Path r \<noteq> Path rec"
  proof (intro ballI)
    fix rec r assume "rec \<in> set ?cr" "r \<in> set dc"
    then show "Path r \<noteq> Path rec" using crP [of rec] by auto
  qed
  have c1: "(if length ?cr > 0 then dbCreate ?cr dc else dc) = ?d1"
    using dbCreate_fresh(1) [OF wf dcr fresh] by (cases "?cr = []") simp_all
  have wf1: "wellFormed ?d1" by (rule dbCreate_fresh(2) [OF wf dcr fresh])
  have ex: "\<forall>u \<in> set ?up. \<exists>e \<in> set ?d1. ID u = ID e \<and> Path u = Path e"
  proof
    fix u assume "u \<in> set ?up"
    from upP [OF this] obtain fi e where "fi \<in> set batch" "e \<in> set dc"
        "Path e = fi_normalizedPath fi" "ID u = ID e" "Path u = fi_normalizedPath fi" by blast
    then show "\<exists>e \<in> set ?d1. ID u = ID e \<and> Path u = Path e" by auto
  qed
  note sf = dbSave_fold [OF wf1 dup ex]
  have wf': "wellFormed ?dc'" using sf by simp
  have set': "set ?dc' = {r \<in> set ?d1. \<forall>u \<in> set ?up. Path r \<noteq> Path u} \<union> set ?up"
    using sf by simp
  have pb: "processBatch sy w batch (dc, calls) =
      (?dc', calls @ map fi_path (filter (\<lambda>fi. \<not> cacheHit dc fi) batch))"
    unfolding processBatch_eq [OF dp] c1 ..
  have keep: "(r \<in> set ?dc' \<and> Path r = q) = (r \<in> set dc \<and> Path r = q)"
    if H: "\<forall>fi \<in> set batch. fi_normalizedPath fi = q \<longrightarrow> cacheHit dc fi" for q r
  proof
    assume a: "r \<in> set ?dc' \<and> Path r = q"
    have nu: "r \<notin> set ?up"
    proof
      assume "r \<in> set ?up"
      from upP [OF this] obtain fi where "fi \<in> set batch" "\<not> cacheHit dc fi"
          "Path r = fi_normalizedPath fi" by blast
      then show False using H a by auto
    qed
    have na: "r \<notin> set (assignIDs (nextID dc) ?cr)"
    proof
      assume "r \<in> set (assignIDs (nextID dc) ?cr)"
      from assignIDs_fields [OF this] obtain rec where rec: "rec \<in> set ?cr" "Path r = Path rec"
        by blast
      from crP [OF rec(1)] obtain fi where "fi \<in> set batch" "\<not> cacheHit dc fi"
          "Path rec = fi_normalizedPath fi" by blast
      then show False using H a rec(2) by auto
    qed
    show "r \<in> set dc \<and> Path r = q" using a nu na unfolding set' by auto
  next
    assume a: "r \<in> set dc \<and> Path r = q"
    have "\<forall>u \<in> set ?up. Path r \<noteq> Path u"
    proof
      fix u assume "u \<in> set ?up"
      from upP [OF this] obtain fi where fi: "fi \<in> set batch" "\<not> cacheHit dc fi"
          "Path u = fi_normalizedPath fi" by blast
      show "Path r \<noteq> Path u"
      proof
        assume "Path r = Path u"
        then have "fi_normalizedPath fi = q" using a fi(3) by simp
        then show False using H fi(1,2) by blast
      qed
    qed
    then show "r \<in> set ?dc' \<and> Path r = q" using a unfolding set' by simp
  qed
  have settled: "cacheHit ?dc' fi \<or> (\<exists>err. calculateFileHash sy w (fi_path fi) = Inl err)"
    if fi: "fi \<in> set batch" for fi
  proof (cases "cacheHit dc fi")
    case True
    then obtain r where r: "r \<in> set dc" "Path r = fi_normalizedPath fi" "Size r = fi_size fi"
        "ModTime r = fi_modTime fi"
      unfolding cacheHit_def by blast
    have H: "\<forall>fi' \<in> set batch. fi_normalizedPath fi' = fi_normalizedPath fi \<longrightarrow> cacheHit dc fi'"
      using same_fi [OF fi] True by blast
    have "r \<in> set ?dc'" using keep [OF H, of r] r(1,2) by simp
    then show ?thesis unfolding cacheHit_def using r(2,3,4) by blast
  next
    case False
    then have nc: "\<not> cached ?em fi" using cached_cacheHit [OF dp fi] by simp
    show ?thesis
    proof (cases "hashed sy w fi")
      case Nil
      then show ?thesis by (simp only: hashed_empty) simp
    next
      case (Cons rec rest)
      then have rec: "rec \<in> set (hashed sy w fi)" by simp
      note rf = hashed_fields [OF rec]
      show ?thesis
      proof (cases "?em (fi_normalizedPath fi)")
        case None
        then have "rec \<in> set ?cr" unfolding in_creates using fi nc rec by blast
        from assignIDs_covers [OF this, of "nextID dc"] obtain r where
          r: "r \<in> set (assignIDs (nextID dc) ?cr)" "Path r = Path rec" "Size r = Size rec"
             "ModTime r = ModTime rec" by blast
        have none: "\<forall>e \<in> set dc. Path e \<noteq> fi_normalizedPath fi"
          using None existingMapOf_None [OF dp inp [OF fi]] by simp
        have "\<forall>u \<in> set ?up. Path r \<noteq> Path u"
        proof
          fix u assume "u \<in> set ?up"
          from upP [OF this] obtain fi' e where f': "fi' \<in> set batch" "e \<in> set dc"
              "Path e = fi_normalizedPath fi'" "Path u = fi_normalizedPath fi'" by blast
          show "Path r \<noteq> Path u"
          proof
            assume "Path r = Path u"
            then have "fi_normalizedPath fi' = fi_normalizedPath fi" using r(2) rf f'(4) by simp
            then have "Path e = fi_normalizedPath fi" using f'(3) by simp
            then show False using none f'(2) by blast
          qed
        qed
        then have "r \<in> set ?dc'" using r(1) unfolding set' by simp
        then have "cacheHit ?dc' fi" unfolding cacheHit_def using r(2,3,4) rf by auto
        then show ?thesis ..
      next
        case (Some e)
        then have "rec\<lparr>ID := ID e\<rparr> \<in> set ?up" unfolding in_updates using fi nc rec by blast
        then have "rec\<lparr>ID := ID e\<rparr> \<in> set ?dc'" unfolding set' by simp
        then have "cacheHit ?dc' fi" unfolding cacheHit_def using rf
          by (intro bexI [of _ "rec\<lparr>ID := ID e\<rparr>"]) simp_all
        then show ?thesis ..
      qed
    qed
  qed
  show ?thesis using pb wf' keep settled by blast
qed
(*THMS-END*)

end
